theory Spec2Isabelle
  imports Main "HOL-Library.AList"
begin

section \<open>Documents and lines\<close>

text \<open>
  The extension reads a VS Code text document through \<open>document.lineCount\<close> and
  \<open>document.lineAt(n).text\<close>. A document is modelled as the list of its line texts,
  a line text as a \<open>string\<close> whose characters stand for the code units of the
  JavaScript string. Line numbers and columns are JavaScript numbers that only ever
  hold integers here, so they are \<open>int\<close>.

  \<open>lineAt\<close> throws for a line number outside \<open>0 .. lineCount - 1\<close>; the exception is
  the value \<open>None\<close>, and every function that calls \<open>lineAt\<close> returns an option.
\<close>

type_synonym document = "string list"

definition lineCount :: "document \<Rightarrow> int" where
  "lineCount doc = int (length doc)"

definition lineAt :: "document \<Rightarrow> int \<Rightarrow> string option" where
  "lineAt doc n = (if n < 0 \<or> n \<ge> lineCount doc then None else Some (doc ! nat n))"

text \<open>
  \<open>String.prototype.trim\<close> removes white space and line terminators from both ends.
  \<open>isWhiteSpace\<close> lists the code units below 256 that it removes: tab, line feed,
  vertical tab, form feed, carriage return, space and no-break space. A \<open>char\<close> has
  eight bits, so the model covers the lines whose code units are below 256; no proof
  below depends on which characters are white space.
\<close>

definition isWhiteSpace :: "char \<Rightarrow> bool" where
  "isWhiteSpace c \<longleftrightarrow>
     c = CHR 0x09 \<or> c = CHR 0x0A \<or> c = CHR 0x0B \<or> c = CHR 0x0C \<or> c = CHR 0x0D \<or>
     c = CHR 0x20 \<or> c = CHR 0xA0"

definition trim :: "string \<Rightarrow> string" where
  "trim s = rev (dropWhile isWhiteSpace (rev (dropWhile isWhiteSpace s)))"

text \<open>The test \<open>text.trim().length === 0\<close> that the source repeats for every line it reads.\<close>

definition isBlankText :: "string \<Rightarrow> bool" where
  "isBlankText text \<longleftrightarrow> length (trim text) = 0"

section \<open>Indentation model\<close>

text \<open>
  \<open>getEffectiveIndentColumn\<close>: the \<open>for\<close> loop over the characters of the line, with
  the loop index \<open>i\<close> and the accumulator \<open>indent\<close>. Both \<open>break\<close> branches of the
  source are kept.
\<close>

function indentLoop :: "string \<Rightarrow> nat \<Rightarrow> int \<Rightarrow> int" where
  "indentLoop line i indent =
     (if i < length line then
        (if line ! i = CHR '' '' then indentLoop line (i + 1) (indent + 1)
         else if line ! i = CHR 0x09 then indentLoop line (i + 1) (indent + 4)
         else if line ! i = CHR ''-'' \<and> i + 1 < length line \<and> line ! (i + 1) = CHR '' ''
           then indent
         else indent)
      else indent)"
  by pat_completeness auto
termination
  by (relation "measure (\<lambda>(line, i, indent). length line - i)") auto

declare indentLoop.simps [simp del]

definition getEffectiveIndentColumn :: "string \<Rightarrow> int" where
  "getEffectiveIndentColumn line = indentLoop line 0 0"

text \<open>\<open>getIndentationLevel\<close> is \<open>Math.floor(effectiveIndent / 2)\<close>.\<close>

definition getIndentationLevel :: "string \<Rightarrow> int" where
  "getIndentationLevel line = getEffectiveIndentColumn line div 2"

definition getIndentationColumn :: "int \<Rightarrow> int" where
  "getIndentationColumn level = level * 2"

section \<open>Hierarchy walker\<close>

text \<open>
  \<open>hasNestedContent\<close>: the forward scan over the lines after \<open>lineNumber\<close>. The last
  \<open>if\<close> of the loop body is kept although its condition is the negation of the one
  before it.
\<close>

function nestedLoop :: "document \<Rightarrow> int \<Rightarrow> int \<Rightarrow> bool option" where
  "nestedLoop doc currentIndent i =
     (if i < lineCount doc then
        (case lineAt doc i of
           None \<Rightarrow> None
         | Some nextLine \<Rightarrow>
             if isBlankText nextLine then nestedLoop doc currentIndent (i + 1)
             else
               (let nextIndent = getEffectiveIndentColumn nextLine in
                if nextIndent > currentIndent then Some True
                else if nextIndent \<le> currentIndent then Some False
                else nestedLoop doc currentIndent (i + 1)))
      else Some False)"
  by pat_completeness auto
termination
  by (relation "measure (\<lambda>(doc, currentIndent, i). nat (lineCount doc - i))") auto

declare nestedLoop.simps [simp del]

definition hasNestedContent :: "document \<Rightarrow> int \<Rightarrow> bool option" where
  "hasNestedContent doc lineNumber =
     (if lineNumber \<ge> lineCount doc - 1 then Some False
      else
        (case lineAt doc lineNumber of
           None \<Rightarrow> None
         | Some currentLine \<Rightarrow>
             if isBlankText currentLine then Some False
             else nestedLoop doc (getEffectiveIndentColumn currentLine) (lineNumber + 1)))"

text \<open>\<open>getParentColumn\<close>: the backward scan; \<open>-1\<close> is the source's "no parent" value.\<close>

function parentLoop :: "document \<Rightarrow> int \<Rightarrow> int \<Rightarrow> int option" where
  "parentLoop doc currentIndent i =
     (if i \<ge> 0 then
        (case lineAt doc i of
           None \<Rightarrow> None
         | Some prevLine \<Rightarrow>
             if isBlankText prevLine then parentLoop doc currentIndent (i - 1)
             else
               (let prevIndent = getEffectiveIndentColumn prevLine in
                if prevIndent < currentIndent then Some prevIndent
                else parentLoop doc currentIndent (i - 1)))
      else Some (- 1))"
  by pat_completeness auto
termination
  by (relation "measure (\<lambda>(doc, currentIndent, i). nat (i + 1))") auto

declare parentLoop.simps [simp del]

definition getParentColumn :: "document \<Rightarrow> int \<Rightarrow> int option" where
  "getParentColumn doc lineNumber =
     (if lineNumber \<le> 0 then Some (- 1)
      else
        (case lineAt doc lineNumber of
           None \<Rightarrow> None
         | Some currentLine \<Rightarrow>
             (let currentIndent = getEffectiveIndentColumn currentLine in
              if currentIndent = 0 then Some (- 1)
              else parentLoop doc currentIndent (lineNumber - 1))))"

definition getParentIndentationLevel :: "document \<Rightarrow> int \<Rightarrow> int option" where
  "getParentIndentationLevel doc lineNumber =
     (case getParentColumn doc lineNumber of
        None \<Rightarrow> None
      | Some parentCol \<Rightarrow> if parentCol < 0 then Some (- 1) else Some (parentCol div 2))"

section \<open>Column collector\<close>

text \<open>
  The two JavaScript \<open>Set\<close>s of \<open>updateDecorations\<close>, \<open>indentColumns\<close> and
  \<open>processedLines\<close>, are lists in insertion order without duplicates; \<open>setAdd\<close> is
  \<open>Set.prototype.add\<close>. The closure \<open>addAncestorColumns\<close> mutates both sets, so the
  model passes them in and returns them. Its inner \<open>for\<close> loop calls the closure
  again and then leaves the loop, which makes the two mutually recursive.
\<close>

definition setAdd :: "int \<Rightarrow> int list \<Rightarrow> int list" where
  "setAdd x xs = (if x \<in> set xs then xs else xs @ [x])"

record collector =
  indentColumns :: "int list"
  processedLines :: "int list"

function addAncestorColumns :: "document \<Rightarrow> int \<Rightarrow> collector \<Rightarrow> collector option"
  and ancestorLoop :: "document \<Rightarrow> int \<Rightarrow> int \<Rightarrow> collector \<Rightarrow> collector option"
where
  "addAncestorColumns doc lineNum st =
     (if lineNum \<in> set (processedLines st) then Some st
      else
        (let st1 = st\<lparr>processedLines := setAdd lineNum (processedLines st)\<rparr> in
         case getParentColumn doc lineNum of
           None \<Rightarrow> None
         | Some parentCol \<Rightarrow>
             if parentCol \<ge> 0 then
               ancestorLoop doc parentCol (lineNum - 1)
                 (st1\<lparr>indentColumns := setAdd parentCol (indentColumns st1)\<rparr>)
             else Some st1))"
| "ancestorLoop doc parentCol j st =
     (if j \<ge> 0 then
        (case lineAt doc j of
           None \<Rightarrow> None
         | Some checkLine \<Rightarrow>
             if isBlankText checkLine then ancestorLoop doc parentCol (j - 1) st
             else
               (let checkIndent = getEffectiveIndentColumn checkLine in
                if checkIndent = parentCol then addAncestorColumns doc j st
                else ancestorLoop doc parentCol (j - 1) st))
      else Some st)"
  by pat_completeness auto
termination
  by (relation "measure (\<lambda>x. case x of
          Inl (doc, lineNum, st) \<Rightarrow> 2 * nat (lineNum + 1) + 1
        | Inr (doc, parentCol, j, st) \<Rightarrow> 2 * nat (j + 2))") auto

declare addAncestorColumns.simps [simp del]
declare ancestorLoop.simps [simp del]

text \<open>The loop over all lines that calls \<open>addAncestorColumns\<close> on every non-blank one.\<close>

function collectLoop :: "document \<Rightarrow> int \<Rightarrow> collector \<Rightarrow> collector option" where
  "collectLoop doc i st =
     (if i < lineCount doc then
        (case lineAt doc i of
           None \<Rightarrow> None
         | Some line \<Rightarrow>
             if isBlankText line then collectLoop doc (i + 1) st
             else
               (case addAncestorColumns doc i st of
                  None \<Rightarrow> None
                | Some st' \<Rightarrow> collectLoop doc (i + 1) st'))
      else Some st)"
  by pat_completeness auto
termination
  by (relation "measure (\<lambda>(doc, i, st). nat (lineCount doc - i))") auto

declare collectLoop.simps [simp del]

section \<open>Range builder\<close>

text \<open>
  A \<open>vscode.Range\<close> is the four numbers its constructor is given. The guide width
  \<open>spacesPerIndent\<close> comes from the configuration; it is a parameter here, a natural
  number, so that every range built is a well-formed one: no position is negative
  and the start is not after the end, and the constructor neither throws nor swaps
  the two positions.
\<close>

record range =
  startLine :: int
  startCharacter :: int
  endLine :: int
  endCharacter :: int

definition Range :: "int \<Rightarrow> int \<Rightarrow> int \<Rightarrow> int \<Rightarrow> range" where
  "Range sl sc el ec = \<lparr>startLine = sl, startCharacter = sc, endLine = el, endCharacter = ec\<rparr>"

text \<open>The loop that finds \<open>blockEnd\<close> for a parent line at column \<open>col\<close>.\<close>

function blockEndLoop :: "document \<Rightarrow> int \<Rightarrow> int \<Rightarrow> int \<Rightarrow> int option" where
  "blockEndLoop doc col j blockEnd =
     (if j < lineCount doc then
        (case lineAt doc j of
           None \<Rightarrow> None
         | Some childText \<Rightarrow>
             if isBlankText childText then blockEndLoop doc col (j + 1) j
             else
               (let childIndent = getEffectiveIndentColumn childText in
                if childIndent \<le> col then Some blockEnd
                else blockEndLoop doc col (j + 1) j))
      else Some blockEnd)"
  by pat_completeness auto
termination
  by (relation "measure (\<lambda>(doc, col, j, blockEnd). nat (lineCount doc - j))") auto

declare blockEndLoop.simps [simp del]

text \<open>The loop that pushes one range per line \<open>k\<close> from \<open>i + 1\<close> to \<open>blockEnd\<close>.\<close>

function pushLoop :: "int \<Rightarrow> nat \<Rightarrow> int \<Rightarrow> int \<Rightarrow> range list \<Rightarrow> range list" where
  "pushLoop col spacesPerIndent k blockEnd ranges =
     (if k \<le> blockEnd then
        pushLoop col spacesPerIndent (k + 1) blockEnd
          (ranges @ [Range k col k (col + int spacesPerIndent)])
      else ranges)"
  by pat_completeness auto
termination
  by (relation "measure (\<lambda>(col, spacesPerIndent, k, blockEnd, ranges). nat (blockEnd + 1 - k))")
    auto

declare pushLoop.simps [simp del]

text \<open>The loop over all lines that looks for the parent lines at column \<open>col\<close>.\<close>

function headLoop :: "document \<Rightarrow> int \<Rightarrow> nat \<Rightarrow> int \<Rightarrow> range list \<Rightarrow> range list option" where
  "headLoop doc col spacesPerIndent i ranges =
     (if i < lineCount doc then
        (case lineAt doc i of
           None \<Rightarrow> None
         | Some lineText \<Rightarrow>
             if isBlankText lineText then headLoop doc col spacesPerIndent (i + 1) ranges
             else
               (let effectiveIndent = getEffectiveIndentColumn lineText in
                if effectiveIndent = col then
                  (case blockEndLoop doc col (i + 1) i of
                     None \<Rightarrow> None
                   | Some blockEnd \<Rightarrow>
                       headLoop doc col spacesPerIndent (i + 1)
                         (pushLoop col spacesPerIndent (i + 1) blockEnd ranges))
                else headLoop doc col spacesPerIndent (i + 1) ranges))
      else Some ranges)"
  by pat_completeness auto
termination
  by (relation "measure (\<lambda>(doc, col, spacesPerIndent, i, ranges). nat (lineCount doc - i))")
    auto

declare headLoop.simps [simp del]

text \<open>
  The loop over \<open>sortedCols\<close>. The \<open>Map\<close> \<open>columnRanges\<close> is an association list in
  insertion order and \<open>Map.prototype.set\<close> is \<open>AList.update\<close>; a column whose list
  of ranges is empty gets no entry.
\<close>

fun columnLoop ::
  "document \<Rightarrow> nat \<Rightarrow> int list \<Rightarrow> (int \<times> range list) list \<Rightarrow> (int \<times> range list) list option"
where
  "columnLoop doc spacesPerIndent [] columnRanges = Some columnRanges"
| "columnLoop doc spacesPerIndent (col # cols) columnRanges =
     (case headLoop doc col spacesPerIndent 0 [] of
        None \<Rightarrow> None
      | Some ranges \<Rightarrow>
          columnLoop doc spacesPerIndent cols
            (if length ranges > 0 then AList.update col ranges columnRanges else columnRanges))"

section \<open>Active block resolver\<close>

text \<open>
  The forward scan that moves \<open>activeBlockEnd\<close>; the source has the same loop in the
  branch for a parent line and in the branch for any other line. The backward scan
  moves \<open>activeBlockStart\<close>.
\<close>

function activeEndLoop :: "document \<Rightarrow> int \<Rightarrow> int \<Rightarrow> int \<Rightarrow> int option" where
  "activeEndLoop doc activeIndentColumn i activeBlockEnd =
     (if i < lineCount doc then
        (case lineAt doc i of
           None \<Rightarrow> None
         | Some line \<Rightarrow>
             if isBlankText line then activeEndLoop doc activeIndentColumn (i + 1) activeBlockEnd
             else if getEffectiveIndentColumn line > activeIndentColumn
               then activeEndLoop doc activeIndentColumn (i + 1) i
             else Some activeBlockEnd)
      else Some activeBlockEnd)"
  by pat_completeness auto
termination
  by (relation "measure (\<lambda>(doc, activeIndentColumn, i, activeBlockEnd). nat (lineCount doc - i))")
    auto

declare activeEndLoop.simps [simp del]

function activeStartLoop :: "document \<Rightarrow> int \<Rightarrow> int \<Rightarrow> int \<Rightarrow> int option" where
  "activeStartLoop doc activeIndentColumn i activeBlockStart =
     (if i \<ge> 0 then
        (case lineAt doc i of
           None \<Rightarrow> None
         | Some line \<Rightarrow>
             if isBlankText line then activeStartLoop doc activeIndentColumn (i - 1) activeBlockStart
             else if getEffectiveIndentColumn line > activeIndentColumn
               then activeStartLoop doc activeIndentColumn (i - 1) i
             else Some activeBlockStart)
      else Some activeBlockStart)"
  by pat_completeness auto
termination
  by (relation "measure (\<lambda>(doc, activeIndentColumn, i, activeBlockStart). nat (i + 1))") auto

declare activeStartLoop.simps [simp del]

text \<open>
  The values of \<open>activeIndentColumn\<close>, \<open>activeBlockStart\<close> and \<open>activeBlockEnd\<close> after
  the block "Determine active column and block boundaries"; all three start at \<open>-1\<close>.
\<close>

definition activeBlock :: "document \<Rightarrow> int \<Rightarrow> (int \<times> int \<times> int) option" where
  "activeBlock doc currentCursorLine =
     (if currentCursorLine \<ge> 0 \<and> currentCursorLine < lineCount doc then
        (case lineAt doc currentCursorLine of
           None \<Rightarrow> None
         | Some cursorLine \<Rightarrow>
             if length (trim cursorLine) > 0 then
               (let currentLineLevel = getIndentationLevel cursorLine in
                case hasNestedContent doc currentCursorLine of
                  None \<Rightarrow> None
                | Some isParentLine \<Rightarrow>
                    (case (if isParentLine then Some (getIndentationColumn currentLineLevel)
                           else
                             (case getParentIndentationLevel doc currentCursorLine of
                                None \<Rightarrow> None
                              | Some parentLevel \<Rightarrow>
                                  if parentLevel \<ge> 0 then Some (getIndentationColumn parentLevel)
                                  else Some (- 1))) of
                       None \<Rightarrow> None
                     | Some activeIndentColumn \<Rightarrow>
                         if activeIndentColumn \<ge> 0 then
                           (if isParentLine then
                              (case activeEndLoop doc activeIndentColumn (currentCursorLine + 1)
                                      currentCursorLine of
                                 None \<Rightarrow> None
                               | Some e \<Rightarrow> Some (activeIndentColumn, currentCursorLine + 1, e))
                            else
                              (case activeStartLoop doc activeIndentColumn (currentCursorLine - 1)
                                      currentCursorLine of
                                 None \<Rightarrow> None
                               | Some s \<Rightarrow>
                                   (case activeEndLoop doc activeIndentColumn
                                           (currentCursorLine + 1) currentCursorLine of
                                      None \<Rightarrow> None
                                    | Some e \<Rightarrow> Some (activeIndentColumn, s, e))))
                         else Some (activeIndentColumn, - 1, - 1)))
             else Some (- 1, - 1, - 1))
      else Some (- 1, - 1, - 1))"

section \<open>The whole computation\<close>

text \<open>
  \<open>updateDecorations\<close> up to the comment "Apply decorations": the structure that the
  presentation code then renders. The checks of the editor, of the \<open>enabled\<close> flag and
  of the language, and the decoration types, belong to the host and are left out.
\<close>

record guides =
  columnRanges :: "(int \<times> range list) list"
  activeIndentColumn :: int
  activeBlockStart :: int
  activeBlockEnd :: int

definition updateDecorations :: "document \<Rightarrow> int \<Rightarrow> nat \<Rightarrow> guides option" where
  "updateDecorations doc currentCursorLine spacesPerIndent =
     (case collectLoop doc 0 \<lparr>indentColumns = [], processedLines = []\<rparr> of
        None \<Rightarrow> None
      | Some st \<Rightarrow>
          (let sortedCols = sort (setAdd 0 (indentColumns st)) in
           case columnLoop doc spacesPerIndent sortedCols [] of
             None \<Rightarrow> None
           | Some ranges \<Rightarrow>
               (case activeBlock doc currentCursorLine of
                  None \<Rightarrow> None
                | Some (col, blockStart, blockEnd) \<Rightarrow>
                    Some \<lparr>columnRanges = ranges, activeIndentColumn = col,
                          activeBlockStart = blockStart, activeBlockEnd = blockEnd\<rparr>)))"

section \<open>Notation for the statements\<close>

text \<open>
  The text of line \<open>i\<close> of a document is \<open>doc ! nat i\<close>. \<open>blankAt\<close> and \<open>columnAt\<close>
  apply the source's blank test and \<open>getEffectiveIndentColumn\<close> to it; they are
  used for line numbers inside the document only.
\<close>

definition blankAt :: "document \<Rightarrow> int \<Rightarrow> bool" where
  "blankAt doc i \<longleftrightarrow> isBlankText (doc ! nat i)"

definition columnAt :: "document \<Rightarrow> int \<Rightarrow> int" where
  "columnAt doc i = getEffectiveIndentColumn (doc ! nat i)"

text \<open>
  \<open>nearestBelow doc c i k\<close>: line \<open>k\<close> is the nearest line at or before line \<open>i\<close>
  that is not blank and has an effective column below \<open>c\<close>.
\<close>

definition nearestBelow :: "document \<Rightarrow> int \<Rightarrow> int \<Rightarrow> int \<Rightarrow> bool" where
  "nearestBelow doc c i k \<longleftrightarrow>
     0 \<le> k \<and> k \<le> i \<and> \<not> blankAt doc k \<and> columnAt doc k < c
     \<and> (\<forall>j. k < j \<and> j \<le> i \<longrightarrow> blankAt doc j \<or> c \<le> columnAt doc j)"

text \<open>
  The invariant of the column collector: the parent column of every processed line,
  when it has one, is among the collected columns.
\<close>

definition collected :: "document \<Rightarrow> collector \<Rightarrow> bool" where
  "collected doc st \<longleftrightarrow>
     (\<forall>n \<in> set (processedLines st). \<forall>p. getParentColumn doc n = Some p \<and> 0 \<le> p \<longrightarrow>
        p \<in> set (indentColumns st))"

section \<open>Properties of the indentation model\<close>

lemma indentLoop_takeWhile:
  "indentLoop line i indent =
     indent + sum_list (map (\<lambda>c. if c = CHR '' '' then 1 else 4)
       (takeWhile (\<lambda>c. c = CHR '' '' \<or> c = CHR 0x09) (drop i line)))"
proof (induction line i indent rule: indentLoop.induct)
  case (1 line i indent)
  show ?case
  proof (cases "i < length line")
    case False
    then show ?thesis by (simp add: indentLoop.simps [of line i indent])
  next
    case True
    then have d: "drop i line = line ! i # drop (i + 1) line"
      by (simp add: Cons_nth_drop_Suc)
    show ?thesis
      using True "1.IH" by (subst indentLoop.simps) (simp add: d)
  qed
qed

lemma getEffectiveIndentColumn_takeWhile:
  "getEffectiveIndentColumn line =
     sum_list (map (\<lambda>c. if c = CHR '' '' then 1 else 4)
       (takeWhile (\<lambda>c. c = CHR '' '' \<or> c = CHR 0x09) line))"
  by (simp add: getEffectiveIndentColumn_def indentLoop_takeWhile)

lemma getEffectiveIndentColumn_nonneg: "0 \<le> getEffectiveIndentColumn line"
  unfolding getEffectiveIndentColumn_takeWhile by (rule sum_list_nonneg) auto

lemma columnAt_nonneg: "0 \<le> columnAt doc i"
  by (simp add: columnAt_def getEffectiveIndentColumn_nonneg)

lemma getEffectiveIndentColumn_spaces:
  "getEffectiveIndentColumn (replicate n (CHR '' '') @ s) = int n + getEffectiveIndentColumn s"
  by (induction n) (simp_all add: getEffectiveIndentColumn_takeWhile)

section \<open>Properties of the hierarchy walker\<close>

lemma lineAt_inside:
  "0 \<le> n \<Longrightarrow> n < lineCount doc \<Longrightarrow> lineAt doc n = Some (doc ! nat n)"
  by (simp add: lineAt_def)

lemma dropWhile_all: "(\<forall>x \<in> set (dropWhile P s). P x) \<longleftrightarrow> (\<forall>x \<in> set s. P x)"
  by (induction s) auto

lemma isBlankText_iff: "isBlankText s \<longleftrightarrow> (\<forall>c \<in> set s. isWhiteSpace c)"
  by (simp add: isBlankText_def trim_def dropWhile_eq_Nil_conv dropWhile_all)

lemma nestedLoop_first:
  "0 \<le> i \<Longrightarrow>
   nestedLoop doc currentIndent i =
     Some (\<exists>k. i \<le> k \<and> k < lineCount doc \<and> \<not> blankAt doc k
              \<and> (\<forall>j. i \<le> j \<and> j < k \<longrightarrow> blankAt doc j) \<and> currentIndent < columnAt doc k)"
proof (induction doc currentIndent i rule: nestedLoop.induct)
  case (1 doc currentIndent i)
  let ?P = "\<lambda>i k. i \<le> k \<and> k < lineCount doc \<and> \<not> blankAt doc k
              \<and> (\<forall>j. i \<le> j \<and> j < k \<longrightarrow> blankAt doc j) \<and> currentIndent < columnAt doc k"
  show ?case
  proof (cases "i < lineCount doc")
    case False
    then show ?thesis by (subst nestedLoop.simps) auto
  next
    case True
    with "1.prems" have at: "lineAt doc i = Some (doc ! nat i)"
      by (simp add: lineAt_inside)
    show ?thesis
    proof (cases "blankAt doc i")
      case True
      have "(\<exists>k. ?P i k) \<longleftrightarrow> (\<exists>k. ?P (i + 1) k)"
      proof
        assume "\<exists>k. ?P i k"
        then obtain k where k: "?P i k" ..
        with True have "k \<noteq> i" by auto
        with k have "?P (i + 1) k" by auto
        then show "\<exists>k. ?P (i + 1) k" ..
      next
        assume "\<exists>k. ?P (i + 1) k"
        then obtain k where k: "?P (i + 1) k" ..
        have "?P i k"
        proof (intro conjI allI impI)
          fix j assume "i \<le> j \<and> j < k"
          then show "blankAt doc j" using k True by (cases "j = i") auto
        qed (use k in auto)
        then show "\<exists>k. ?P i k" ..
      qed
      moreover have "nestedLoop doc currentIndent i = nestedLoop doc currentIndent (i + 1)"
        using \<open>i < lineCount doc\<close> at True
        by (subst nestedLoop.simps) (simp add: blankAt_def)
      ultimately show ?thesis
        using "1.IH"(1) [OF \<open>i < lineCount doc\<close> at] True "1.prems"
        by (simp add: blankAt_def)
    next
      case False
      have "(\<exists>k. ?P i k) \<longleftrightarrow> currentIndent < columnAt doc i"
      proof
        assume "\<exists>k. ?P i k"
        then obtain k where k: "?P i k" ..
        have "k = i"
        proof (rule ccontr)
          assume "k \<noteq> i"
          with k have "blankAt doc i" by auto
          with False show False ..
        qed
        with k show "currentIndent < columnAt doc i" by simp
      next
        assume "currentIndent < columnAt doc i"
        with False \<open>i < lineCount doc\<close> have "?P i i" by auto
        then show "\<exists>k. ?P i k" ..
      qed
      moreover have "nestedLoop doc currentIndent i = Some (currentIndent < columnAt doc i)"
        using \<open>i < lineCount doc\<close> at False
        by (subst nestedLoop.simps) (auto simp: blankAt_def columnAt_def Let_def)
      ultimately show ?thesis by simp
    qed
  qed
qed

lemma hasNestedContent_char:
  assumes "0 \<le> i"
  shows "hasNestedContent doc i =
           Some (i < lineCount doc - 1 \<and> \<not> blankAt doc i
                 \<and> (\<exists>k. i < k \<and> k < lineCount doc \<and> \<not> blankAt doc k
                        \<and> (\<forall>j. i < j \<and> j < k \<longrightarrow> blankAt doc j)
                        \<and> columnAt doc i < columnAt doc k))"
proof (cases "i < lineCount doc - 1")
  case False
  then show ?thesis by (simp add: hasNestedContent_def)
next
  case True
  with assms have at: "lineAt doc i = Some (doc ! nat i)"
    by (simp add: lineAt_inside)
  have eq: "(i + 1 \<le> k) = (i < k)" for k by auto
  have "nestedLoop doc (columnAt doc i) (i + 1) =
          Some (\<exists>k. i < k \<and> k < lineCount doc \<and> \<not> blankAt doc k
                   \<and> (\<forall>j. i < j \<and> j < k \<longrightarrow> blankAt doc j)
                   \<and> columnAt doc i < columnAt doc k)"
    using assms nestedLoop_first [of "i + 1" doc "columnAt doc i"] by (simp only: eq)
  then show ?thesis
    using True at by (simp add: hasNestedContent_def blankAt_def columnAt_def)
qed

lemma nearestBelow_here:
  "0 \<le> i \<Longrightarrow> \<not> blankAt doc i \<Longrightarrow> columnAt doc i < c \<Longrightarrow> nearestBelow doc c i i"
  by (simp add: nearestBelow_def)

lemma nearestBelow_step:
  assumes "nearestBelow doc c (i - 1) k" and "blankAt doc i \<or> c \<le> columnAt doc i"
  shows "nearestBelow doc c i k"
  unfolding nearestBelow_def
proof (intro conjI allI impI)
  fix j assume j: "k < j \<and> j \<le> i"
  show "blankAt doc j \<or> c \<le> columnAt doc j"
  proof (cases "j = i")
    case True
    with assms(2) show ?thesis by simp
  next
    case False
    with j have "k < j \<and> j \<le> i - 1" by simp
    with assms(1) show ?thesis unfolding nearestBelow_def by blast
  qed
qed (use assms(1) in \<open>auto simp: nearestBelow_def\<close>)

lemma nearestBelow_unique:
  assumes "nearestBelow doc c i k" and "nearestBelow doc c i k'"
  shows "k = k'"
proof (rule ccontr)
  assume "k \<noteq> k'"
  then consider "k < k'" | "k' < k" by linarith
  then show False
  proof cases
    case 1
    with assms have "blankAt doc k' \<or> c \<le> columnAt doc k'"
      unfolding nearestBelow_def by blast
    with assms(2) show False by (auto simp: nearestBelow_def)
  next
    case 2
    with assms have "blankAt doc k \<or> c \<le> columnAt doc k"
      unfolding nearestBelow_def by blast
    with assms(1) show False by (auto simp: nearestBelow_def)
  qed
qed

lemma parentLoop_nearest:
  "i < lineCount doc \<Longrightarrow>
   \<exists>r. parentLoop doc c i = Some r \<and>
     ((\<exists>k. nearestBelow doc c i k \<and> r = columnAt doc k)
      \<or> ((\<forall>k. 0 \<le> k \<and> k \<le> i \<longrightarrow> blankAt doc k \<or> c \<le> columnAt doc k) \<and> r = - 1))"
proof (induction doc c i rule: parentLoop.induct)
  case (1 doc c i)
  show ?case
  proof (cases "0 \<le> i")
    case False
    then have "parentLoop doc c i = Some (- 1)"
      by (subst parentLoop.simps) simp
    with False show ?thesis by auto
  next
    case True
    with "1.prems" have at: "lineAt doc i = Some (doc ! nat i)"
      by (simp add: lineAt_inside)
    show ?thesis
    proof (cases "\<not> blankAt doc i \<and> columnAt doc i < c")
      case here: True
      then have "parentLoop doc c i = Some (columnAt doc i)"
        using True at
        by (subst parentLoop.simps) (simp add: blankAt_def columnAt_def Let_def)
      moreover have "nearestBelow doc c i i"
        using here True by (simp add: nearestBelow_here)
      ultimately show ?thesis by blast
    next
      case skip: False
      then have step: "parentLoop doc c i = parentLoop doc c (i - 1)"
        using True at
        by (subst parentLoop.simps) (auto simp: blankAt_def columnAt_def Let_def)
      have below: "i - 1 < lineCount doc" using "1.prems" by simp
      have ih: "\<exists>r. parentLoop doc c (i - 1) = Some r \<and>
         ((\<exists>k. nearestBelow doc c (i - 1) k \<and> r = columnAt doc k)
          \<or> ((\<forall>k. 0 \<le> k \<and> k \<le> i - 1 \<longrightarrow> blankAt doc k \<or> c \<le> columnAt doc k) \<and> r = - 1))"
      proof (cases "isBlankText (doc ! nat i)")
        case True
        from "1.IH"(1) [OF \<open>0 \<le> i\<close> at True below] show ?thesis .
      next
        case nb: False
        with skip have "\<not> getEffectiveIndentColumn (doc ! nat i) < c"
          by (simp add: blankAt_def columnAt_def)
        from "1.IH"(2) [OF \<open>0 \<le> i\<close> at nb refl this below] show ?thesis .
      qed
      then obtain r where r: "parentLoop doc c (i - 1) = Some r"
        and alt: "(\<exists>k. nearestBelow doc c (i - 1) k \<and> r = columnAt doc k)
          \<or> ((\<forall>k. 0 \<le> k \<and> k \<le> i - 1 \<longrightarrow> blankAt doc k \<or> c \<le> columnAt doc k) \<and> r = - 1)"
        by blast
      from skip have skip': "blankAt doc i \<or> c \<le> columnAt doc i" by auto
      from alt show ?thesis
      proof
        assume "\<exists>k. nearestBelow doc c (i - 1) k \<and> r = columnAt doc k"
        then obtain k where "nearestBelow doc c (i - 1) k" "r = columnAt doc k" by blast
        then have "nearestBelow doc c i k \<and> r = columnAt doc k"
          using skip' by (simp add: nearestBelow_step)
        with r step show ?thesis by auto
      next
        assume none: "(\<forall>k. 0 \<le> k \<and> k \<le> i - 1 \<longrightarrow> blankAt doc k \<or> c \<le> columnAt doc k) \<and> r = - 1"
        have "\<forall>k. 0 \<le> k \<and> k \<le> i \<longrightarrow> blankAt doc k \<or> c \<le> columnAt doc k"
        proof (intro allI impI)
          fix k assume k: "0 \<le> k \<and> k \<le> i"
          show "blankAt doc k \<or> c \<le> columnAt doc k"
          proof (cases "k = i")
            case True
            with skip' show ?thesis by simp
          next
            case False
            with k have "0 \<le> k \<and> k \<le> i - 1" by simp
            with none show ?thesis by blast
          qed
        qed
        with none r step show ?thesis by auto
      qed
    qed
  qed
qed

lemma getParentColumn_cases:
  assumes "0 \<le> i" and "i < lineCount doc"
  shows "\<exists>r. getParentColumn doc i = Some r \<and>
     (if i = 0 \<or> columnAt doc i = 0 then r = - 1
      else (\<exists>k. nearestBelow doc (columnAt doc i) (i - 1) k \<and> r = columnAt doc k)
        \<or> ((\<forall>k. 0 \<le> k \<and> k \<le> i - 1 \<longrightarrow> blankAt doc k \<or> columnAt doc i \<le> columnAt doc k)
           \<and> r = - 1))"
proof (cases "i = 0 \<or> columnAt doc i = 0")
  case True
  then show ?thesis
    using assms by (auto simp: getParentColumn_def lineAt_inside columnAt_def Let_def)
next
  case False
  have "getParentColumn doc i = parentLoop doc (columnAt doc i) (i - 1)"
    using False assms by (simp add: getParentColumn_def lineAt_inside columnAt_def Let_def)
  moreover have "i - 1 < lineCount doc" using assms by simp
  note parentLoop_nearest [OF this, of "columnAt doc i"]
  ultimately show ?thesis using False by simp
qed

section \<open>Induction along a scan and the steps of the loops\<close>

text \<open>
  Every loop of the source scans line numbers upwards to \<open>lineCount\<close> or downwards to
  0. The two rules below are induction along such a scan.
\<close>

lemma scan_up_induct:
  fixes j n :: int
  assumes "\<And>j. (j < n \<Longrightarrow> P (j + 1)) \<Longrightarrow> P j"
  shows "P j"
proof (induction "nat (n - j)" arbitrary: j rule: less_induct)
  case less
  show ?case
  proof (rule assms)
    assume "j < n"
    then have "nat (n - (j + 1)) < nat (n - j)" by simp
    then show "P (j + 1)" by (rule less)
  qed
qed

lemma scan_down_induct:
  fixes j :: int
  assumes "\<And>j. (0 \<le> j \<Longrightarrow> P (j - 1)) \<Longrightarrow> P j"
  shows "P j"
proof (induction "nat (j + 1)" arbitrary: j rule: less_induct)
  case less
  show ?case
  proof (rule assms)
    assume "0 \<le> j"
    then have "nat (j - 1 + 1) < nat (j + 1)" by simp
    then show "P (j - 1)" by (rule less)
  qed
qed

lemma blockEndLoop_done:
  "\<not> j < lineCount doc \<Longrightarrow> blockEndLoop doc col j blockEnd = Some blockEnd"
  by (subst blockEndLoop.simps) simp

lemma blockEndLoop_continue:
  "0 \<le> j \<Longrightarrow> j < lineCount doc \<Longrightarrow> blankAt doc j \<or> col < columnAt doc j \<Longrightarrow>
     blockEndLoop doc col j blockEnd = blockEndLoop doc col (j + 1) j"
  by (subst blockEndLoop.simps) (auto simp: lineAt_inside blankAt_def columnAt_def Let_def)

lemma blockEndLoop_break:
  "0 \<le> j \<Longrightarrow> j < lineCount doc \<Longrightarrow> \<not> blankAt doc j \<Longrightarrow> columnAt doc j \<le> col \<Longrightarrow>
     blockEndLoop doc col j blockEnd = Some blockEnd"
  by (subst blockEndLoop.simps) (auto simp: lineAt_inside blankAt_def columnAt_def Let_def)

lemma activeEndLoop_done:
  "\<not> i < lineCount doc \<Longrightarrow> activeEndLoop doc col i blockEnd = Some blockEnd"
  by (subst activeEndLoop.simps) simp

lemma activeEndLoop_blank:
  "0 \<le> i \<Longrightarrow> i < lineCount doc \<Longrightarrow> blankAt doc i \<Longrightarrow>
     activeEndLoop doc col i blockEnd = activeEndLoop doc col (i + 1) blockEnd"
  by (subst activeEndLoop.simps) (auto simp: lineAt_inside blankAt_def columnAt_def)

lemma activeEndLoop_deeper:
  "0 \<le> i \<Longrightarrow> i < lineCount doc \<Longrightarrow> \<not> blankAt doc i \<Longrightarrow> col < columnAt doc i \<Longrightarrow>
     activeEndLoop doc col i blockEnd = activeEndLoop doc col (i + 1) i"
  by (subst activeEndLoop.simps) (auto simp: lineAt_inside blankAt_def columnAt_def)

lemma activeEndLoop_break:
  "0 \<le> i \<Longrightarrow> i < lineCount doc \<Longrightarrow> \<not> blankAt doc i \<Longrightarrow> columnAt doc i \<le> col \<Longrightarrow>
     activeEndLoop doc col i blockEnd = Some blockEnd"
  by (subst activeEndLoop.simps) (auto simp: lineAt_inside blankAt_def columnAt_def)

lemma activeStartLoop_done:
  "\<not> 0 \<le> i \<Longrightarrow> activeStartLoop doc col i blockStart = Some blockStart"
  by (subst activeStartLoop.simps) simp

lemma activeStartLoop_blank:
  "0 \<le> i \<Longrightarrow> i < lineCount doc \<Longrightarrow> blankAt doc i \<Longrightarrow>
     activeStartLoop doc col i blockStart = activeStartLoop doc col (i - 1) blockStart"
  by (subst activeStartLoop.simps) (auto simp: lineAt_inside blankAt_def columnAt_def)

lemma activeStartLoop_deeper:
  "0 \<le> i \<Longrightarrow> i < lineCount doc \<Longrightarrow> \<not> blankAt doc i \<Longrightarrow> col < columnAt doc i \<Longrightarrow>
     activeStartLoop doc col i blockStart = activeStartLoop doc col (i - 1) i"
  by (subst activeStartLoop.simps) (auto simp: lineAt_inside blankAt_def columnAt_def)

lemma activeStartLoop_break:
  "0 \<le> i \<Longrightarrow> i < lineCount doc \<Longrightarrow> \<not> blankAt doc i \<Longrightarrow> columnAt doc i \<le> col \<Longrightarrow>
     activeStartLoop doc col i blockStart = Some blockStart"
  by (subst activeStartLoop.simps) (auto simp: lineAt_inside blankAt_def columnAt_def)

lemma headLoop_done:
  "\<not> i < lineCount doc \<Longrightarrow> headLoop doc col w i ranges = Some ranges"
  by (subst headLoop.simps) simp

lemma headLoop_skip:
  "0 \<le> i \<Longrightarrow> i < lineCount doc \<Longrightarrow> blankAt doc i \<or> columnAt doc i \<noteq> col \<Longrightarrow>
     headLoop doc col w i ranges = headLoop doc col w (i + 1) ranges"
  by (subst headLoop.simps) (auto simp: lineAt_inside blankAt_def columnAt_def Let_def)

lemma headLoop_head:
  "0 \<le> i \<Longrightarrow> i < lineCount doc \<Longrightarrow> \<not> blankAt doc i \<Longrightarrow> columnAt doc i = col \<Longrightarrow>
     blockEndLoop doc col (i + 1) i = Some blockEnd \<Longrightarrow>
     headLoop doc col w i ranges =
       headLoop doc col w (i + 1) (pushLoop col w (i + 1) blockEnd ranges)"
  by (subst headLoop.simps) (auto simp: lineAt_inside blankAt_def columnAt_def Let_def)

lemma collectLoop_done:
  "\<not> i < lineCount doc \<Longrightarrow> collectLoop doc i st = Some st"
  by (subst collectLoop.simps) simp

lemma collectLoop_blank:
  "0 \<le> i \<Longrightarrow> i < lineCount doc \<Longrightarrow> blankAt doc i \<Longrightarrow>
     collectLoop doc i st = collectLoop doc (i + 1) st"
  by (subst collectLoop.simps) (auto simp: lineAt_inside blankAt_def)

lemma collectLoop_line:
  "0 \<le> i \<Longrightarrow> i < lineCount doc \<Longrightarrow> \<not> blankAt doc i \<Longrightarrow>
     addAncestorColumns doc i st = Some st' \<Longrightarrow>
     collectLoop doc i st = collectLoop doc (i + 1) st'"
  by (subst collectLoop.simps) (auto simp: lineAt_inside blankAt_def)

lemma ancestorLoop_done:
  "\<not> 0 \<le> j \<Longrightarrow> ancestorLoop doc parentCol j st = Some st"
  by (subst ancestorLoop.simps) simp

lemma ancestorLoop_skip:
  "0 \<le> j \<Longrightarrow> j < lineCount doc \<Longrightarrow> blankAt doc j \<or> columnAt doc j \<noteq> parentCol \<Longrightarrow>
     ancestorLoop doc parentCol j st = ancestorLoop doc parentCol (j - 1) st"
  by (subst ancestorLoop.simps) (auto simp: lineAt_inside blankAt_def columnAt_def Let_def)

lemma ancestorLoop_found:
  "0 \<le> j \<Longrightarrow> j < lineCount doc \<Longrightarrow> \<not> blankAt doc j \<Longrightarrow> columnAt doc j = parentCol \<Longrightarrow>
     ancestorLoop doc parentCol j st = addAncestorColumns doc j st"
  by (subst ancestorLoop.simps) (auto simp: lineAt_inside blankAt_def columnAt_def Let_def)

lemma pushLoop_upto:
  "pushLoop col w k blockEnd ranges =
     ranges @ map (\<lambda>k. Range k col k (col + int w)) [k..blockEnd]"
proof (induction col w k blockEnd ranges rule: pushLoop.induct)
  case (1 col w k blockEnd ranges)
  show ?case
  proof (cases "k \<le> blockEnd")
    case True
    then show ?thesis
      using "1.IH" by (subst pushLoop.simps) (simp add: upto_rec1 [of k blockEnd])
  next
    case False
    then show ?thesis by (subst pushLoop.simps) simp
  qed
qed

lemma startLine_pushLoop:
  "map startLine (pushLoop col w k blockEnd ranges) = map startLine ranges @ [k..blockEnd]"
  by (simp add: pushLoop_upto Range_def comp_def)

section \<open>Properties of the range builder\<close>

lemma blockEndLoop_total:
  "0 \<le> j \<Longrightarrow> \<exists>e. blockEndLoop doc col j blockEnd = Some e"
proof (induction j arbitrary: blockEnd rule: scan_up_induct [where n = "lineCount doc"])
  case (1 j)
  show ?case
  proof (cases "j < lineCount doc")
    case False
    then show ?thesis by (simp add: blockEndLoop_done)
  next
    case True
    show ?thesis
    proof (cases "blankAt doc j \<or> col < columnAt doc j")
      case True
      with \<open>j < lineCount doc\<close> "1.prems"
      have "blockEndLoop doc col j blockEnd = blockEndLoop doc col (j + 1) j"
        by (rule_tac blockEndLoop_continue)
      moreover have "\<exists>e. blockEndLoop doc col (j + 1) j = Some e"
        using "1.IH" [OF \<open>j < lineCount doc\<close>] "1.prems" by simp
      ultimately show ?thesis by simp
    next
      case False
      with \<open>j < lineCount doc\<close> "1.prems" show ?thesis
        by (simp add: blockEndLoop_break)
    qed
  qed
qed

text \<open>
  The block found for a parent line: every line from the start of the scan to
  \<open>blockEnd\<close> is a line of the document that is blank or deeper than \<open>col\<close>.
\<close>

lemma blockEndLoop_block:
  "0 \<le> j \<Longrightarrow> blockEndLoop doc col j (j - 1) = Some e \<Longrightarrow>
     j - 1 \<le> e \<and>
     (\<forall>l. j \<le> l \<and> l \<le> e \<longrightarrow> l < lineCount doc \<and> (blankAt doc l \<or> col < columnAt doc l))"
proof (induction j rule: scan_up_induct [where n = "lineCount doc"])
  case (1 j)
  show ?case
  proof (cases "j < lineCount doc")
    case False
    with "1.prems" have "e = j - 1" by (simp add: blockEndLoop_done)
    then show ?thesis by simp
  next
    case True
    show ?thesis
    proof (cases "blankAt doc j \<or> col < columnAt doc j")
      case here: True
      with True "1.prems"
      have "blockEndLoop doc col (j + 1) (j + 1 - 1) = Some e"
        by (simp add: blockEndLoop_continue [of j doc col "j - 1"])
      with "1.IH" [OF True] "1.prems"
      have ih: "j \<le> e"
        "\<forall>l. j + 1 \<le> l \<and> l \<le> e \<longrightarrow> l < lineCount doc \<and> (blankAt doc l \<or> col < columnAt doc l)"
        by auto
      have "\<forall>l. j \<le> l \<and> l \<le> e \<longrightarrow> l < lineCount doc \<and> (blankAt doc l \<or> col < columnAt doc l)"
      proof (intro allI impI)
        fix l assume l: "j \<le> l \<and> l \<le> e"
        show "l < lineCount doc \<and> (blankAt doc l \<or> col < columnAt doc l)"
        proof (cases "l = j")
          case True
          with here \<open>j < lineCount doc\<close> show ?thesis by simp
        next
          case False
          with l have "j + 1 \<le> l \<and> l \<le> e" by simp
          with ih(2) show ?thesis by blast
        qed
      qed
      with ih(1) show ?thesis by simp
    next
      case False
      with True "1.prems" have "e = j - 1" by (simp add: blockEndLoop_break)
      then show ?thesis by simp
    qed
  qed
qed

lemma blockEndLoop_skip:
  "0 \<le> j \<Longrightarrow> m < lineCount doc \<Longrightarrow> j \<le> m + 1 \<Longrightarrow>
   (\<forall>l. j \<le> l \<and> l \<le> m \<longrightarrow> blankAt doc l \<or> col < columnAt doc l) \<Longrightarrow>
     blockEndLoop doc col j (j - 1) = blockEndLoop doc col (m + 1) m"
proof (induction j rule: scan_up_induct [where n = "m + 1"])
  case (1 j)
  show ?case
  proof (cases "j < m + 1")
    case False
    with "1.prems" have "j = m + 1" by simp
    then show ?thesis by simp
  next
    case True
    with "1.prems" have "blankAt doc j \<or> col < columnAt doc j" "j < lineCount doc" by auto
    with "1.prems" have "blockEndLoop doc col j (j - 1) = blockEndLoop doc col (j + 1) (j + 1 - 1)"
      by (simp add: blockEndLoop_continue)
    also have "\<dots> = blockEndLoop doc col (m + 1) m"
      using "1.IH" [OF True] "1.prems" True by simp
    finally show ?thesis .
  qed
qed

lemma activeEndLoop_total:
  "0 \<le> i \<Longrightarrow> \<exists>e. activeEndLoop doc col i blockEnd = Some e"
proof (induction i arbitrary: blockEnd rule: scan_up_induct [where n = "lineCount doc"])
  case (1 i)
  show ?case
  proof (cases "i < lineCount doc")
    case False
    then show ?thesis by (simp add: activeEndLoop_done)
  next
    case True
    from "1.IH" [OF True] "1.prems"
    have ih: "\<exists>e. activeEndLoop doc col (i + 1) b = Some e" for b by simp
    consider "blankAt doc i" | "\<not> blankAt doc i" "col < columnAt doc i"
      | "\<not> blankAt doc i" "columnAt doc i \<le> col" by linarith
    then show ?thesis
    proof cases
      case 1
      with True "1.prems" ih show ?thesis by (simp add: activeEndLoop_blank)
    next
      case 2
      with True "1.prems" ih show ?thesis by (simp add: activeEndLoop_deeper)
    next
      case 3
      with True "1.prems" show ?thesis by (simp add: activeEndLoop_break)
    qed
  qed
qed

lemma activeStartLoop_total:
  "i < lineCount doc \<Longrightarrow> \<exists>s. activeStartLoop doc col i blockStart = Some s"
proof (induction i arbitrary: blockStart rule: scan_down_induct)
  case (1 i)
  show ?case
  proof (cases "0 \<le> i")
    case False
    then show ?thesis by (simp add: activeStartLoop_done)
  next
    case True
    from "1.IH" [OF True] "1.prems"
    have ih: "\<exists>s. activeStartLoop doc col (i - 1) b = Some s" for b by simp
    consider "blankAt doc i" | "\<not> blankAt doc i" "col < columnAt doc i"
      | "\<not> blankAt doc i" "columnAt doc i \<le> col" by linarith
    then show ?thesis
    proof cases
      case 1
      with True "1.prems" ih show ?thesis by (simp add: activeStartLoop_blank)
    next
      case 2
      with True "1.prems" ih show ?thesis by (simp add: activeStartLoop_deeper)
    next
      case 3
      with True "1.prems" show ?thesis by (simp add: activeStartLoop_break)
    qed
  qed
qed

text \<open>The active span ends no later than the block that the range builder finds.\<close>

lemma activeEnd_le_blockEnd:
  "0 \<le> j \<Longrightarrow> a \<le> j - 1 \<Longrightarrow> blockEndLoop doc col j (j - 1) = Some e2 \<Longrightarrow>
   activeEndLoop doc col j a = Some e1 \<Longrightarrow> e1 \<le> e2"
proof (induction j arbitrary: a rule: scan_up_induct [where n = "lineCount doc"])
  case (1 j)
  from blockEndLoop_block [OF "1.prems"(1,3)] have low: "j - 1 \<le> e2" by simp
  show ?case
  proof (cases "j < lineCount doc")
    case False
    with "1.prems" have "e1 = a" by (simp add: activeEndLoop_done)
    with low "1.prems" show ?thesis by simp
  next
    case True
    consider "blankAt doc j" | "\<not> blankAt doc j" "col < columnAt doc j"
      | "\<not> blankAt doc j" "columnAt doc j \<le> col" by linarith
    then show ?thesis
    proof cases
      case 1
      with True "1.prems" have "blockEndLoop doc col (j + 1) (j + 1 - 1) = Some e2"
        and "activeEndLoop doc col (j + 1) a = Some e1"
        by (simp_all add: blockEndLoop_continue [of j doc col "j - 1"] activeEndLoop_blank)
      with "1.IH" [OF True, of a] "1.prems" show ?thesis by simp
    next
      case 2
      with True "1.prems" have "blockEndLoop doc col (j + 1) (j + 1 - 1) = Some e2"
        and "activeEndLoop doc col (j + 1) j = Some e1"
        by (simp_all add: blockEndLoop_continue [of j doc col "j - 1"] activeEndLoop_deeper)
      with "1.IH" [OF True, of j] "1.prems" show ?thesis by simp
    next
      case 3
      with True "1.prems" have "e1 = a" by (simp add: activeEndLoop_break)
      with low "1.prems" show ?thesis by simp
    qed
  qed
qed

text \<open>The backward scan of the active span stops after a line that is not deeper.\<close>

lemma activeStartLoop_above:
  "0 \<le> h \<Longrightarrow> h \<le> j \<Longrightarrow> j < lineCount doc \<Longrightarrow> \<not> blankAt doc h \<Longrightarrow> columnAt doc h \<le> col \<Longrightarrow>
   h < s0 \<Longrightarrow> activeStartLoop doc col j s0 = Some s \<Longrightarrow> h < s"
proof (induction j arbitrary: s0 rule: scan_down_induct)
  case (1 j)
  then have j0: "0 \<le> j" by simp
  consider "blankAt doc j" | "\<not> blankAt doc j" "col < columnAt doc j"
    | "\<not> blankAt doc j" "columnAt doc j \<le> col" by linarith
  then show ?case
  proof cases
    case blank: 1
    with "1.prems" have "h \<noteq> j" by auto
    with "1.prems" have "h \<le> j - 1" by simp
    moreover from blank j0 "1.prems" have "activeStartLoop doc col (j - 1) s0 = Some s"
      by (simp add: activeStartLoop_blank)
    ultimately show ?thesis using "1.IH" [OF j0, of s0] "1.prems" by simp
  next
    case deeper: 2
    with "1.prems" have "h \<noteq> j" by auto
    with "1.prems" have "h \<le> j - 1" "h < j" by simp_all
    moreover from deeper j0 "1.prems" have "activeStartLoop doc col (j - 1) j = Some s"
      by (simp add: activeStartLoop_deeper)
    ultimately show ?thesis using "1.IH" [OF j0, of j] "1.prems" by simp
  next
    case 3
    with j0 "1.prems" have "s = s0" by (simp add: activeStartLoop_break)
    with "1.prems" show ?thesis by simp
  qed
qed

lemma headLoop_total:
  "0 \<le> i \<Longrightarrow> \<exists>rs. headLoop doc col w i ranges = Some rs"
proof (induction i arbitrary: ranges rule: scan_up_induct [where n = "lineCount doc"])
  case (1 i)
  show ?case
  proof (cases "i < lineCount doc")
    case False
    then show ?thesis by (simp add: headLoop_done)
  next
    case True
    from "1.IH" [OF True] "1.prems"
    have ih: "\<exists>rs. headLoop doc col w (i + 1) r = Some rs" for r by simp
    show ?thesis
    proof (cases "blankAt doc i \<or> columnAt doc i \<noteq> col")
      case True
      with \<open>i < lineCount doc\<close> "1.prems" ih show ?thesis by (simp add: headLoop_skip)
    next
      case False
      from "1.prems" obtain e where "blockEndLoop doc col (i + 1) i = Some e"
        using blockEndLoop_total [of "i + 1" doc col i] by auto
      with False \<open>i < lineCount doc\<close> "1.prems" ih show ?thesis
        by (simp add: headLoop_head)
    qed
  qed
qed

lemma headLoop_mono:
  "0 \<le> i \<Longrightarrow> headLoop doc col w i ranges = Some rs \<Longrightarrow> set ranges \<subseteq> set rs"
proof (induction i arbitrary: ranges rule: scan_up_induct [where n = "lineCount doc"])
  case (1 i)
  show ?case
  proof (cases "i < lineCount doc")
    case False
    with "1.prems" show ?thesis by (simp add: headLoop_done)
  next
    case True
    show ?thesis
    proof (cases "blankAt doc i \<or> columnAt doc i \<noteq> col")
      case skip: True
      with True "1.prems" have "headLoop doc col w (i + 1) ranges = Some rs"
        by (simp add: headLoop_skip)
      with "1.IH" [OF True] "1.prems" show ?thesis by simp
    next
      case False
      from "1.prems" obtain e where e: "blockEndLoop doc col (i + 1) i = Some e"
        using blockEndLoop_total [of "i + 1" doc col i] by auto
      with False True "1.prems"
      have "headLoop doc col w (i + 1) (pushLoop col w (i + 1) e ranges) = Some rs"
        by (simp add: headLoop_head)
      with "1.IH" [OF True] "1.prems" have "set (pushLoop col w (i + 1) e ranges) \<subseteq> set rs"
        by simp
      then show ?thesis by (auto simp: pushLoop_upto)
    qed
  qed
qed

text \<open>Every line of the block of a parent line at column \<open>col\<close> gets a range.\<close>

lemma headLoop_covers:
  "0 \<le> i \<Longrightarrow> i \<le> h \<Longrightarrow> h < lineCount doc \<Longrightarrow> \<not> blankAt doc h \<Longrightarrow> columnAt doc h = col \<Longrightarrow>
   blockEndLoop doc col (h + 1) h = Some e \<Longrightarrow> h < l \<Longrightarrow> l \<le> e \<Longrightarrow>
   headLoop doc col w i ranges = Some rs \<Longrightarrow> l \<in> startLine ` set rs"
proof (induction i arbitrary: ranges rule: scan_up_induct [where n = "lineCount doc"])
  case (1 i)
  then have inside: "i < lineCount doc" by simp
  show ?case
  proof (cases "blankAt doc i \<or> columnAt doc i \<noteq> col")
    case skip: True
    with "1.prems" have "i \<noteq> h" by auto
    with "1.prems" have "i + 1 \<le> h" by simp
    moreover from skip inside "1.prems" have "headLoop doc col w (i + 1) ranges = Some rs"
      by (simp add: headLoop_skip)
    ultimately show ?thesis using "1.IH" [OF inside, of ranges] "1.prems" by simp
  next
    case head: False
    from "1.prems" obtain e' where e': "blockEndLoop doc col (i + 1) i = Some e'"
      using blockEndLoop_total [of "i + 1" doc col i] by auto
    with head inside "1.prems"
    have next_eq: "headLoop doc col w (i + 1) (pushLoop col w (i + 1) e' ranges) = Some rs"
      by (simp add: headLoop_head)
    show ?thesis
    proof (cases "i = h")
      case True
      with e' "1.prems" have "e' = e" by simp
      with True "1.prems" have "l \<in> startLine ` set (pushLoop col w (i + 1) e' ranges)"
        using startLine_pushLoop [of col w "i + 1" e' ranges]
        by (metis (no_types, lifting) Un_iff add1_zle_eq atLeastAtMost_iff list.set_map
            set_append set_upto)
      moreover have "set (pushLoop col w (i + 1) e' ranges) \<subseteq> set rs"
        using headLoop_mono [OF _ next_eq] "1.prems" by simp
      ultimately show ?thesis by auto
    next
      case False
      with "1.prems" have "i + 1 \<le> h" by simp
      then show ?thesis
        using "1.IH" [OF inside, of "pushLoop col w (i + 1) e' ranges"] "1.prems" next_eq
        by simp
    qed
  qed
qed

text \<open>
  No two ranges of one column are on the same line. The invariant of the scan: the
  ranges built so far are on distinct lines, and from the line the scan has reached
  up to the line of any of them there are only blank or deeper lines.
\<close>

lemma headLoop_distinct:
  "0 \<le> i \<Longrightarrow> distinct (map startLine ranges) \<Longrightarrow>
   (\<forall>r \<in> set ranges. \<forall>l. i \<le> l \<and> l \<le> startLine r \<longrightarrow> blankAt doc l \<or> col < columnAt doc l) \<Longrightarrow>
   headLoop doc col w i ranges = Some rs \<Longrightarrow> distinct (map startLine rs)"
proof (induction i arbitrary: ranges rule: scan_up_induct [where n = "lineCount doc"])
  case (1 i)
  show ?case
  proof (cases "i < lineCount doc")
    case False
    with "1.prems" show ?thesis by (simp add: headLoop_done)
  next
    case True
    show ?thesis
    proof (cases "blankAt doc i \<or> columnAt doc i \<noteq> col")
      case skip: True
      with True "1.prems" have "headLoop doc col w (i + 1) ranges = Some rs"
        by (simp add: headLoop_skip)
      moreover have "\<forall>r \<in> set ranges. \<forall>l. i + 1 \<le> l \<and> l \<le> startLine r \<longrightarrow>
          blankAt doc l \<or> col < columnAt doc l"
        using "1.prems"(3) by auto
      ultimately show ?thesis using "1.IH" [OF True, of ranges] "1.prems" by simp
    next
      case head: False
      from "1.prems" obtain e where e: "blockEndLoop doc col (i + 1) i = Some e"
        using blockEndLoop_total [of "i + 1" doc col i] by auto
      let ?new = "pushLoop col w (i + 1) e ranges"
      from e head True "1.prems" have next_eq: "headLoop doc col w (i + 1) ?new = Some rs"
        by (simp add: headLoop_head)
      from blockEndLoop_block [of "i + 1" doc col e] e "1.prems"
      have block: "\<forall>l. i + 1 \<le> l \<and> l \<le> e \<longrightarrow> blankAt doc l \<or> col < columnAt doc l"
        by simp
      have old: "startLine r < i" if "r \<in> set ranges" for r
      proof (rule ccontr)
        assume "\<not> startLine r < i"
        then have "i \<le> i \<and> i \<le> startLine r" by simp
        with "1.prems"(3) that have "blankAt doc i \<or> col < columnAt doc i" by blast
        with head show False by auto
      qed
      have lines: "map startLine ?new = map startLine ranges @ [i + 1..e]"
        by (rule startLine_pushLoop)
      have "startLine ` set ranges \<inter> {i + 1..e} = {}"
        using old by fastforce
      then have "distinct (map startLine ?new)"
        unfolding lines using "1.prems"(2) by (simp add: distinct_upto)
      moreover have "\<forall>r \<in> set ?new. \<forall>l. i + 1 \<le> l \<and> l \<le> startLine r \<longrightarrow>
          blankAt doc l \<or> col < columnAt doc l"
      proof (intro ballI allI impI)
        fix r l assume r: "r \<in> set ?new" and l: "i + 1 \<le> l \<and> l \<le> startLine r"
        from r have "startLine r \<in> set (map startLine ?new)" by simp
        then have "startLine r \<in> startLine ` set ranges \<or> (i + 1 \<le> startLine r \<and> startLine r \<le> e)"
          unfolding lines by auto
        then show "blankAt doc l \<or> col < columnAt doc l"
        proof
          assume "startLine r \<in> startLine ` set ranges"
          then have "startLine r < i" using old by auto
          with l show ?thesis by simp
        next
          assume "i + 1 \<le> startLine r \<and> startLine r \<le> e"
          with l have "i + 1 \<le> l \<and> l \<le> e" by simp
          with block show ?thesis by blast
        qed
      qed
      ultimately show ?thesis using "1.IH" [OF True, of ?new] "1.prems" next_eq by simp
    qed
  qed
qed

lemma columnLoop_total:
  "\<exists>m. columnLoop doc w cols acc = Some m"
proof (induction cols arbitrary: acc)
  case Nil
  show ?case by simp
next
  case (Cons col cols)
  obtain rs where "headLoop doc col w 0 [] = Some rs"
    using headLoop_total [of 0 doc col w "[]"] by auto
  with Cons show ?case by simp
qed

text \<open>An entry of the result is an old entry or what \<open>headLoop\<close> built for its column.\<close>

lemma columnLoop_entry:
  "columnLoop doc w cols acc = Some m \<Longrightarrow> map_of m col = Some rs \<Longrightarrow>
     map_of acc col = Some rs \<or> (col \<in> set cols \<and> headLoop doc col w 0 [] = Some rs \<and> rs \<noteq> [])"
proof (induction cols arbitrary: acc)
  case Nil
  then show ?case by simp
next
  case (Cons c cols)
  obtain rc where rc: "headLoop doc c w 0 [] = Some rc"
    using headLoop_total [of 0 doc c w "[]"] by auto
  let ?next = "if length rc > 0 then AList.update c rc acc else acc"
  from Cons.prems rc have "columnLoop doc w cols ?next = Some m" by simp
  from Cons.IH [OF this Cons.prems(2)]
  have "map_of ?next col = Some rs \<or> (col \<in> set cols \<and> headLoop doc col w 0 [] = Some rs \<and> rs \<noteq> [])" .
  then show ?case
  proof
    assume "map_of ?next col = Some rs"
    then show ?thesis using rc by (auto simp: update_conv' split: if_splits)
  next
    assume "col \<in> set cols \<and> headLoop doc col w 0 [] = Some rs \<and> rs \<noteq> []"
    then show ?thesis by simp
  qed
qed

text \<open>A column of \<open>sortedCols\<close> for which \<open>headLoop\<close> builds ranges is a key of the result.\<close>

lemma columnLoop_key:
  "columnLoop doc w cols acc = Some m \<Longrightarrow> headLoop doc col w 0 [] = Some rs \<Longrightarrow>
   rs \<noteq> [] \<Longrightarrow> col \<in> set cols \<or> map_of acc col = Some rs \<Longrightarrow> map_of m col = Some rs"
proof (induction cols arbitrary: acc)
  case Nil
  then show ?case by simp
next
  case (Cons c cols)
  obtain rc where rc: "headLoop doc c w 0 [] = Some rc"
    using headLoop_total [of 0 doc c w "[]"] by auto
  let ?next = "if length rc > 0 then AList.update c rc acc else acc"
  from Cons.prems rc have run: "columnLoop doc w cols ?next = Some m" by simp
  have "col \<in> set cols \<or> map_of ?next col = Some rs"
  proof (cases "col = c")
    case True
    with rc Cons.prems have "rc = rs" by simp
    with True Cons.prems have "map_of ?next col = Some rs" by (simp add: update_conv')
    then show ?thesis ..
  next
    case False
    with Cons.prems(4) show ?thesis by (auto simp: update_conv')
  qed
  from Cons.IH [OF run Cons.prems(2,3) this] show ?case .
qed

section \<open>Properties of the column collector\<close>

lemma getParentColumn_total:
  "i < lineCount doc \<Longrightarrow> \<exists>p. getParentColumn doc i = Some p"
proof (cases "0 \<le> i")
  case True
  assume "i < lineCount doc"
  from getParentColumn_cases [OF True this] show ?thesis by blast
next
  case False
  then show ?thesis by (simp add: getParentColumn_def)
qed

lemma set_setAdd: "set (setAdd x xs) = insert x (set xs)"
  by (auto simp: setAdd_def)

lemma collector_steps:
  "lineNum < lineCount doc \<longrightarrow> collected doc st \<longrightarrow>
     (\<exists>st'. addAncestorColumns doc lineNum st = Some st' \<and> collected doc st'
        \<and> insert lineNum (set (processedLines st)) \<subseteq> set (processedLines st')
        \<and> set (indentColumns st) \<subseteq> set (indentColumns st'))"
  "j < lineCount doc \<longrightarrow> collected doc st \<longrightarrow>
     (\<exists>st'. ancestorLoop doc parentCol j st = Some st' \<and> collected doc st'
        \<and> set (processedLines st) \<subseteq> set (processedLines st')
        \<and> set (indentColumns st) \<subseteq> set (indentColumns st'))"
proof (induction doc lineNum st and doc parentCol j st rule: addAncestorColumns_ancestorLoop.induct)
  case (1 doc lineNum st)
  show ?case
  proof (intro impI)
    assume inside: "lineNum < lineCount doc" and inv: "collected doc st"
    show "\<exists>st'. addAncestorColumns doc lineNum st = Some st' \<and> collected doc st'
        \<and> insert lineNum (set (processedLines st)) \<subseteq> set (processedLines st')
        \<and> set (indentColumns st) \<subseteq> set (indentColumns st')"
    proof (cases "lineNum \<in> set (processedLines st)")
      case True
      then have "addAncestorColumns doc lineNum st = Some st"
        by (subst addAncestorColumns.simps) simp
      with True inv show ?thesis by auto
    next
      case False
      define st1 where "st1 = st\<lparr>processedLines := setAdd lineNum (processedLines st)\<rparr>"
      from getParentColumn_total [OF inside] obtain p where p: "getParentColumn doc lineNum = Some p"
        by blast
      show ?thesis
      proof (cases "0 \<le> p")
        case neg: False
        with False p have "addAncestorColumns doc lineNum st = Some st1"
          by (subst addAncestorColumns.simps) (simp add: st1_def Let_def)
        moreover have "collected doc st1"
          using inv p neg by (auto simp: collected_def st1_def set_setAdd)
        ultimately show ?thesis by (auto simp: st1_def set_setAdd)
      next
        case True
        define st2 where "st2 = st1\<lparr>indentColumns := setAdd p (indentColumns st1)\<rparr>"
        from False p True
        have run: "addAncestorColumns doc lineNum st = ancestorLoop doc p (lineNum - 1) st2"
          by (subst addAncestorColumns.simps) (simp add: st1_def st2_def Let_def)
        have inv2: "collected doc st2"
          using inv p by (auto simp: collected_def st1_def st2_def set_setAdd)
        from inside have "lineNum - 1 < lineCount doc" by simp
        with "1.IH" [OF False st1_def p True] inv2
        obtain st' where st': "ancestorLoop doc p (lineNum - 1) st2 = Some st'" "collected doc st'"
          "set (processedLines st2) \<subseteq> set (processedLines st')"
          "set (indentColumns st2) \<subseteq> set (indentColumns st')"
          unfolding st2_def by blast
        then show ?thesis using run by (auto simp: st1_def st2_def set_setAdd)
      qed
    qed
  qed
next
  case (2 doc parentCol j st)
  show ?case
  proof (intro impI)
    assume inside: "j < lineCount doc" and inv: "collected doc st"
    show "\<exists>st'. ancestorLoop doc parentCol j st = Some st' \<and> collected doc st'
        \<and> set (processedLines st) \<subseteq> set (processedLines st')
        \<and> set (indentColumns st) \<subseteq> set (indentColumns st')"
    proof (cases "0 \<le> j")
      case False
      with inv show ?thesis by (simp add: ancestorLoop_done)
    next
      case True
      with inside have at: "lineAt doc j = Some (doc ! nat j)" by (simp add: lineAt_inside)
      from inside have below: "j - 1 < lineCount doc" by simp
      consider (blank) "blankAt doc j" | (found) "\<not> blankAt doc j" "columnAt doc j = parentCol"
        | (other) "\<not> blankAt doc j" "columnAt doc j \<noteq> parentCol" by blast
      then show ?thesis
      proof cases
        case blank
        then have "ancestorLoop doc parentCol j st = ancestorLoop doc parentCol (j - 1) st"
          using True inside by (simp add: ancestorLoop_skip)
        moreover from blank have "isBlankText (doc ! nat j)" by (simp add: blankAt_def)
        note "2.IH"(1) [OF True at this]
        ultimately show ?thesis using below inv by simp
      next
        case found
        then have "ancestorLoop doc parentCol j st = addAncestorColumns doc j st"
          using True inside by (simp add: ancestorLoop_found)
        moreover from found have "\<not> isBlankText (doc ! nat j)"
          "getEffectiveIndentColumn (doc ! nat j) = parentCol"
          by (simp_all add: blankAt_def columnAt_def)
        note "2.IH"(2) [OF True at this(1) refl this(2)]
        ultimately show ?thesis using inside inv by auto
      next
        case other
        then have "ancestorLoop doc parentCol j st = ancestorLoop doc parentCol (j - 1) st"
          using True inside by (simp add: ancestorLoop_skip)
        moreover from other have "\<not> isBlankText (doc ! nat j)"
          "getEffectiveIndentColumn (doc ! nat j) \<noteq> parentCol"
          by (simp_all add: blankAt_def columnAt_def)
        note "2.IH"(3) [OF True at this(1) refl this(2)]
        ultimately show ?thesis using below inv by simp
      qed
    qed
  qed
qed

text \<open>
  After the loop over all lines every non-blank line is processed, so the parent
  column of every non-blank line is collected.
\<close>

lemma collectLoop_all:
  "0 \<le> i \<Longrightarrow> collected doc st \<Longrightarrow>
   (\<forall>n. 0 \<le> n \<and> n < i \<and> n < lineCount doc \<and> \<not> blankAt doc n \<longrightarrow> n \<in> set (processedLines st)) \<Longrightarrow>
   \<exists>st'. collectLoop doc i st = Some st' \<and> collected doc st'
      \<and> (\<forall>n. 0 \<le> n \<and> n < lineCount doc \<and> \<not> blankAt doc n \<longrightarrow> n \<in> set (processedLines st'))"
proof (induction i arbitrary: st rule: scan_up_induct [where n = "lineCount doc"])
  case (1 i)
  show ?case
  proof (cases "i < lineCount doc")
    case False
    with "1.prems" show ?thesis by (auto simp: collectLoop_done)
  next
    case True
    show ?thesis
    proof (cases "blankAt doc i")
      case blank: True
      with True "1.prems" have "collectLoop doc i st = collectLoop doc (i + 1) st"
        by (simp add: collectLoop_blank)
      moreover have "\<forall>n. 0 \<le> n \<and> n < i + 1 \<and> n < lineCount doc \<and> \<not> blankAt doc n
          \<longrightarrow> n \<in> set (processedLines st)"
      proof (intro allI impI)
        fix n assume n: "0 \<le> n \<and> n < i + 1 \<and> n < lineCount doc \<and> \<not> blankAt doc n"
        with blank have "n \<noteq> i" by auto
        with n have "0 \<le> n \<and> n < i \<and> n < lineCount doc \<and> \<not> blankAt doc n" by simp
        with "1.prems"(3) show "n \<in> set (processedLines st)" by blast
      qed
      ultimately show ?thesis using "1.IH" [OF True, of st] "1.prems" by simp
    next
      case False
      from collector_steps(1) [of i doc st] True "1.prems"
      obtain st1 where st1: "addAncestorColumns doc i st = Some st1" "collected doc st1"
        "insert i (set (processedLines st)) \<subseteq> set (processedLines st1)" by blast
      with False True "1.prems" have "collectLoop doc i st = collectLoop doc (i + 1) st1"
        by (simp add: collectLoop_line)
      moreover have "\<forall>n. 0 \<le> n \<and> n < i + 1 \<and> n < lineCount doc \<and> \<not> blankAt doc n
          \<longrightarrow> n \<in> set (processedLines st1)"
      proof (intro allI impI)
        fix n assume n: "0 \<le> n \<and> n < i + 1 \<and> n < lineCount doc \<and> \<not> blankAt doc n"
        show "n \<in> set (processedLines st1)"
        proof (cases "n = i")
          case True
          with st1(3) show ?thesis by simp
        next
          case False
          with n have "0 \<le> n \<and> n < i \<and> n < lineCount doc \<and> \<not> blankAt doc n" by simp
          with "1.prems"(3) have "n \<in> set (processedLines st)" by blast
          with st1(3) show ?thesis by auto
        qed
      qed
      ultimately show ?thesis using "1.IH" [OF True, of st1] "1.prems" st1(2) by simp
    qed
  qed
qed

lemma collectLoop_parents:
  "\<exists>st. collectLoop doc 0 \<lparr>indentColumns = [], processedLines = []\<rparr> = Some st
     \<and> (\<forall>n p. 0 \<le> n \<and> n < lineCount doc \<and> \<not> blankAt doc n \<and> getParentColumn doc n = Some p \<and> 0 \<le> p
          \<longrightarrow> p \<in> set (indentColumns st))"
proof -
  have "collected doc \<lparr>indentColumns = [], processedLines = []\<rparr>"
    by (simp add: collected_def)
  from collectLoop_all [of 0 doc "\<lparr>indentColumns = [], processedLines = []\<rparr>"] this
  obtain st where st: "collectLoop doc 0 \<lparr>indentColumns = [], processedLines = []\<rparr> = Some st"
    "collected doc st"
    "\<forall>n. 0 \<le> n \<and> n < lineCount doc \<and> \<not> blankAt doc n \<longrightarrow> n \<in> set (processedLines st)"
    by auto
  then have "\<forall>n p. 0 \<le> n \<and> n < lineCount doc \<and> \<not> blankAt doc n \<and> getParentColumn doc n = Some p \<and> 0 \<le> p
          \<longrightarrow> p \<in> set (indentColumns st)"
    unfolding collected_def by blast
  with st(1) show ?thesis by blast
qed

section \<open>Properties of the active block resolver and of the whole computation\<close>

lemma trim_nonempty: "length (trim s) > 0 \<longleftrightarrow> \<not> isBlankText s"
  by (simp add: isBlankText_def)

lemma hasNestedContent_total:
  "0 \<le> i \<Longrightarrow> \<exists>b. hasNestedContent doc i = Some b"
  by (simp add: hasNestedContent_char)

lemma hasNestedContent_True_inside:
  "hasNestedContent doc i = Some True \<Longrightarrow> 0 \<le> i \<and> i < lineCount doc - 1"
  by (auto simp: hasNestedContent_def lineAt_def split: if_splits)

text \<open>The first non-blank line after a line that is less indented has that line as parent.\<close>

lemma getParentColumn_first_child:
  assumes "0 \<le> h" "h < k" "k < lineCount doc" "\<not> blankAt doc h" "columnAt doc h < columnAt doc k"
    and "\<forall>j. h < j \<and> j < k \<longrightarrow> blankAt doc j"
  shows "getParentColumn doc k = Some (columnAt doc h)"
proof -
  have near: "nearestBelow doc (columnAt doc k) (k - 1) h"
    using assms by (auto simp: nearestBelow_def)
  have k0: "\<not> (k = 0 \<or> columnAt doc k = 0)"
    using assms columnAt_nonneg [of doc h] by auto
  from assms have "0 \<le> k" by simp
  from getParentColumn_cases [OF this assms(3)] k0
  obtain r where r: "getParentColumn doc k = Some r"
    and alt: "(\<exists>k'. nearestBelow doc (columnAt doc k) (k - 1) k' \<and> r = columnAt doc k')
        \<or> ((\<forall>k'. 0 \<le> k' \<and> k' \<le> k - 1 \<longrightarrow> blankAt doc k' \<or> columnAt doc k \<le> columnAt doc k')
           \<and> r = - 1)"
    by auto
  from alt have "r = columnAt doc h"
  proof
    assume "\<exists>k'. nearestBelow doc (columnAt doc k) (k - 1) k' \<and> r = columnAt doc k'"
    then obtain k' where "nearestBelow doc (columnAt doc k) (k - 1) k'" "r = columnAt doc k'"
      by blast
    with near show ?thesis by (simp add: nearestBelow_unique [of doc "columnAt doc k" "k - 1" h k'])
  next
    assume "(\<forall>k'. 0 \<le> k' \<and> k' \<le> k - 1 \<longrightarrow> blankAt doc k' \<or> columnAt doc k \<le> columnAt doc k')
           \<and> r = - 1"
    then have "0 \<le> h \<and> h \<le> k - 1 \<longrightarrow> blankAt doc h \<or> columnAt doc k \<le> columnAt doc h"
      by blast
    with assms show ?thesis by simp
  qed
  with r show ?thesis by simp
qed

text \<open>A parent column that is not \<open>-1\<close> is the column of the nearest less indented line.\<close>

lemma getParentColumn_parent_line:
  assumes "0 \<le> i" "i < lineCount doc" "getParentColumn doc i = Some p" "0 \<le> p"
  shows "\<exists>h. nearestBelow doc (columnAt doc i) (i - 1) h \<and> p = columnAt doc h"
proof -
  from getParentColumn_cases [OF assms(1,2)] assms(3)
  have spec: "if i = 0 \<or> columnAt doc i = 0 then p = - 1
      else (\<exists>k. nearestBelow doc (columnAt doc i) (i - 1) k \<and> p = columnAt doc k)
        \<or> ((\<forall>k. 0 \<le> k \<and> k \<le> i - 1 \<longrightarrow> blankAt doc k \<or> columnAt doc i \<le> columnAt doc k)
           \<and> p = - 1)"
    by auto
  show ?thesis
  proof (cases "i = 0 \<or> columnAt doc i = 0")
    case True
    with spec assms(4) show ?thesis by simp
  next
    case False
    with spec assms(4) show ?thesis by auto
  qed
qed

text \<open>The block of a parent line reaches its first child.\<close>

lemma blockEndLoop_reaches_child:
  assumes "0 \<le> h" "h < k" "k < lineCount doc" "col < columnAt doc k"
    and "\<forall>j. h < j \<and> j < k \<longrightarrow> blankAt doc j"
  shows "\<exists>e. blockEndLoop doc col (h + 1) h = Some e \<and> k \<le> e"
proof -
  have "\<forall>l. h + 1 \<le> l \<and> l \<le> k \<longrightarrow> blankAt doc l \<or> col < columnAt doc l"
  proof (intro allI impI)
    fix l assume l: "h + 1 \<le> l \<and> l \<le> k"
    show "blankAt doc l \<or> col < columnAt doc l"
    proof (cases "l = k")
      case True
      with assms(4) show ?thesis by simp
    next
      case False
      with l have "h < l \<and> l < k" by simp
      with assms(5) show ?thesis by blast
    qed
  qed
  with blockEndLoop_skip [of "h + 1" k doc col] assms
  have eq: "blockEndLoop doc col (h + 1) h = blockEndLoop doc col (k + 1) k" by simp
  from assms obtain e where e: "blockEndLoop doc col (k + 1) k = Some e"
    using blockEndLoop_total [of "k + 1" doc col k] by auto
  with blockEndLoop_block [of "k + 1" doc col e] assms have "k \<le> e" by simp
  with eq e show ?thesis by simp
qed

lemma activeBlock_outside:
  "currentCursorLine < 0 \<or> lineCount doc \<le> currentCursorLine \<Longrightarrow>
     activeBlock doc currentCursorLine = Some (- 1, - 1, - 1)"
  by (auto simp: activeBlock_def)

lemma activeBlock_blank:
  "0 \<le> i \<Longrightarrow> i < lineCount doc \<Longrightarrow> blankAt doc i \<Longrightarrow>
     activeBlock doc i = Some (- 1, - 1, - 1)"
  by (simp add: activeBlock_def lineAt_inside blankAt_def isBlankText_def)

lemma activeBlock_parent:
  assumes "hasNestedContent doc i = Some True"
  shows "\<exists>e. activeEndLoop doc (columnAt doc i div 2 * 2) (i + 1) i = Some e
     \<and> activeBlock doc i = Some (columnAt doc i div 2 * 2, i + 1, e)"
proof -
  from hasNestedContent_True_inside [OF assms] have inside: "0 \<le> i" "i < lineCount doc" by simp_all
  have nb: "\<not> blankAt doc i"
    using assms inside by (simp add: hasNestedContent_char)
  have pos: "0 \<le> columnAt doc i div 2 * 2"
    using columnAt_nonneg [of doc i] by simp
  from inside obtain e where e: "activeEndLoop doc (columnAt doc i div 2 * 2) (i + 1) i = Some e"
    using activeEndLoop_total [of "i + 1" doc "columnAt doc i div 2 * 2" i] by auto
  have "activeBlock doc i = Some (columnAt doc i div 2 * 2, i + 1, e)"
    using inside nb assms pos e
    by (simp add: activeBlock_def lineAt_inside blankAt_def isBlankText_def columnAt_def
        getIndentationLevel_def getIndentationColumn_def Let_def)
  with e show ?thesis by blast
qed

lemma activeBlock_no_parent:
  assumes "0 \<le> i" "i < lineCount doc" "\<not> blankAt doc i" "hasNestedContent doc i = Some False"
    and "getParentColumn doc i = Some p" "p < 0"
  shows "activeBlock doc i = Some (- 1, - 1, - 1)"
  using assms
  by (simp add: activeBlock_def lineAt_inside blankAt_def isBlankText_def
      getParentIndentationLevel_def Let_def)

lemma activeBlock_child:
  assumes "0 \<le> i" "i < lineCount doc" "\<not> blankAt doc i" "hasNestedContent doc i = Some False"
    and "getParentColumn doc i = Some p" "0 \<le> p"
  shows "\<exists>s e. activeStartLoop doc (p div 2 * 2) (i - 1) i = Some s
     \<and> activeEndLoop doc (p div 2 * 2) (i + 1) i = Some e
     \<and> activeBlock doc i = Some (p div 2 * 2, s, e)"
proof -
  have pos: "0 \<le> p div 2" "0 \<le> p div 2 * 2" using assms(6) by simp_all
  from assms obtain s where s: "activeStartLoop doc (p div 2 * 2) (i - 1) i = Some s"
    using activeStartLoop_total [of "i - 1" doc "p div 2 * 2" i] by auto
  from assms obtain e where e: "activeEndLoop doc (p div 2 * 2) (i + 1) i = Some e"
    using activeEndLoop_total [of "i + 1" doc "p div 2 * 2" i] by auto
  have "activeBlock doc i = Some (p div 2 * 2, s, e)"
    using assms pos s e
    by (simp add: activeBlock_def lineAt_inside blankAt_def isBlankText_def
        getParentIndentationLevel_def getIndentationColumn_def Let_def)
  with s e show ?thesis by blast
qed

text \<open>The cases of \<open>activeBlock\<close> together: it returns normally, with one of four results.\<close>

lemma activeBlock_cases:
  obtains (none) "activeBlock doc i = Some (- 1, - 1, - 1)"
  | (parent) e where "hasNestedContent doc i = Some True"
      "activeEndLoop doc (columnAt doc i div 2 * 2) (i + 1) i = Some e"
      "activeBlock doc i = Some (columnAt doc i div 2 * 2, i + 1, e)"
  | (child) p s e where "0 \<le> i" "i < lineCount doc" "\<not> blankAt doc i"
      "hasNestedContent doc i = Some False" "getParentColumn doc i = Some p" "0 \<le> p"
      "activeStartLoop doc (p div 2 * 2) (i - 1) i = Some s"
      "activeEndLoop doc (p div 2 * 2) (i + 1) i = Some e"
      "activeBlock doc i = Some (p div 2 * 2, s, e)"
proof (cases "0 \<le> i \<and> i < lineCount doc")
  case False
  then have "activeBlock doc i = Some (- 1, - 1, - 1)"
    by (intro activeBlock_outside) auto
  then show ?thesis by (rule none)
next
  case inside: True
  show ?thesis
  proof (cases "blankAt doc i")
    case True
    with inside have "activeBlock doc i = Some (- 1, - 1, - 1)"
      by (simp add: activeBlock_blank)
    then show ?thesis by (rule none)
  next
    case nb: False
    from inside obtain b where b: "hasNestedContent doc i = Some b"
      using hasNestedContent_total [of i doc] by auto
    show ?thesis
    proof (cases b)
      case True
      with b activeBlock_parent [of doc i] show ?thesis by (auto intro: parent)
    next
      case False
      from inside obtain p where p: "getParentColumn doc i = Some p"
        using getParentColumn_total [of i doc] by auto
      show ?thesis
      proof (cases "0 \<le> p")
        case True
        with inside nb b False p activeBlock_child [of i doc p]
        show ?thesis by (auto intro: child)
      next
        case neg: False
        with inside nb b False p have "activeBlock doc i = Some (- 1, - 1, - 1)"
          by (simp add: activeBlock_no_parent)
        then show ?thesis by (rule none)
      qed
    qed
  qed
qed

lemma activeBlock_total: "\<exists>r. activeBlock doc i = Some r"
  by (cases doc i rule: activeBlock_cases) auto

lemma activeBlock_column_even:
  "activeBlock doc i = Some (col, s, e) \<Longrightarrow> col = - 1 \<or> (0 \<le> col \<and> even col)"
proof (cases doc i rule: activeBlock_cases)
  case none
  assume "activeBlock doc i = Some (col, s, e)"
  with none show ?thesis by simp
next
  case (parent e')
  assume "activeBlock doc i = Some (col, s, e)"
  with parent columnAt_nonneg [of doc i] show ?thesis by auto
next
  case (child p s' e')
  assume "activeBlock doc i = Some (col, s, e)"
  with child show ?thesis by auto
qed

text \<open>\<open>updateDecorations\<close> returns normally, and its result is made of the three parts.\<close>

lemma updateDecorations_parts:
  obtains st ranges col s e where
    "collectLoop doc 0 \<lparr>indentColumns = [], processedLines = []\<rparr> = Some st"
    "columnLoop doc w (sort (setAdd 0 (indentColumns st))) [] = Some ranges"
    "activeBlock doc cursor = Some (col, s, e)"
    "updateDecorations doc cursor w =
       Some \<lparr>columnRanges = ranges, activeIndentColumn = col,
             activeBlockStart = s, activeBlockEnd = e\<rparr>"
    "\<forall>n p. 0 \<le> n \<and> n < lineCount doc \<and> \<not> blankAt doc n \<and> getParentColumn doc n = Some p \<and> 0 \<le> p
          \<longrightarrow> p \<in> set (indentColumns st)"
proof -
  from collectLoop_parents [of doc] obtain st
    where st: "collectLoop doc 0 \<lparr>indentColumns = [], processedLines = []\<rparr> = Some st"
      "\<forall>n p. 0 \<le> n \<and> n < lineCount doc \<and> \<not> blankAt doc n \<and> getParentColumn doc n = Some p \<and> 0 \<le> p
          \<longrightarrow> p \<in> set (indentColumns st)"
    by blast
  obtain ranges where ranges: "columnLoop doc w (sort (setAdd 0 (indentColumns st))) [] = Some ranges"
    using columnLoop_total [of doc w "sort (setAdd 0 (indentColumns st))" "[]"] by blast
  obtain col s e where act: "activeBlock doc cursor = Some (col, s, e)"
    using activeBlock_total [of doc cursor] by (metis prod_cases3)
  have "updateDecorations doc cursor w =
         Some \<lparr>columnRanges = ranges, activeIndentColumn = col,
               activeBlockStart = s, activeBlockEnd = e\<rparr>"
    using st(1) ranges act by (simp add: updateDecorations_def Let_def)
  with st(1) ranges act show ?thesis using st(2) by (rule that)
qed

lemma updateDecorations_total: "\<exists>g. updateDecorations doc cursor w = Some g"
  by (rule updateDecorations_parts [where doc = doc and cursor = cursor and w = w]) blast

text \<open>
  A line in the block of a parent line at a collected column, or at column 0, has a
  range in the entry of that column.
\<close>

lemma guide_for_block:
  assumes run: "updateDecorations doc cursor w = Some g"
    and head: "0 \<le> h" "h < lineCount doc" "\<not> blankAt doc h" "columnAt doc h = col"
    and block: "blockEndLoop doc col (h + 1) h = Some e"
    and key: "col = 0 \<or> (\<exists>n. 0 \<le> n \<and> n < lineCount doc \<and> \<not> blankAt doc n
                \<and> getParentColumn doc n = Some col)"
    and line: "h < l" "l \<le> e"
  shows "\<exists>rs. map_of (columnRanges g) col = Some rs \<and> l \<in> startLine ` set rs"
proof -
  obtain st ranges c s' e'
    where parts: "collectLoop doc 0 \<lparr>indentColumns = [], processedLines = []\<rparr> = Some st"
      "columnLoop doc w (sort (setAdd 0 (indentColumns st))) [] = Some ranges"
      "activeBlock doc cursor = Some (c, s', e')"
      "updateDecorations doc cursor w =
         Some \<lparr>columnRanges = ranges, activeIndentColumn = c,
               activeBlockStart = s', activeBlockEnd = e'\<rparr>"
      "\<forall>n p. 0 \<le> n \<and> n < lineCount doc \<and> \<not> blankAt doc n \<and> getParentColumn doc n = Some p \<and> 0 \<le> p
          \<longrightarrow> p \<in> set (indentColumns st)"
    by (rule updateDecorations_parts [where doc = doc and cursor = cursor and w = w])
  from parts(4) run have "columnRanges g = ranges" by auto
  with parts have st: "columnLoop doc w (sort (setAdd 0 (indentColumns st))) [] = Some (columnRanges g)"
      "\<forall>n p. 0 \<le> n \<and> n < lineCount doc \<and> \<not> blankAt doc n \<and> getParentColumn doc n = Some p \<and> 0 \<le> p
          \<longrightarrow> p \<in> set (indentColumns st)"
    by simp_all
  have "0 \<le> col" using head(4) columnAt_nonneg [of doc h] by simp
  with key st(2) have "col \<in> set (sort (setAdd 0 (indentColumns st)))"
    by (auto simp: set_setAdd)
  moreover obtain rs where rs: "headLoop doc col w 0 [] = Some rs"
    using headLoop_total [of 0 doc col w "[]"] by auto
  moreover have l: "l \<in> startLine ` set rs"
    using headLoop_covers [of 0 h doc col e l w "[]" rs] head block line rs by simp
  then have "rs \<noteq> []" by auto
  ultimately have "map_of (columnRanges g) col = Some rs"
    using columnLoop_key [OF st(1), of col rs] by simp
  with l show ?thesis by blast
qed

section \<open>The claims\<close>

text \<open>
  C1, as the claim states it, fails: in the document \<open>[" a:", "   b"]\<close> with the cursor
  on line 0 the cursor line is a parent line at column 1, its level is 0, and
  \<open>getIndentationColumn\<close> turns the level into the active column 0. The active span
  is line 1, but the only guide column is column 1, so column 0 is no key of the
  result.
\<close>

theorem active_span_not_covered_odd_column:
  "updateDecorations ['' a:'', ''   b''] 0 1 =
     Some \<lparr>columnRanges = [(1, [Range 1 1 1 2])], activeIndentColumn = 0,
           activeBlockStart = 1, activeBlockEnd = 1\<rparr>
   \<and> map_of [(1 :: int, [Range 1 1 1 2])] 0 = None"
  by code_simp

text \<open>
  C1, amended. Whenever the computation yields an active block and the column that
  the active column is derived from is even (the effective column of the cursor line
  when the cursor line has nested content, its parent column otherwise), the active
  column is a key of \<open>columnRanges\<close> and every line of the active span has a guide
  range in that entry.
\<close>

theorem active_span_covered:
  assumes run: "updateDecorations doc cursor w = Some g"
    and active: "0 \<le> activeIndentColumn g"
    and even_own: "hasNestedContent doc cursor = Some True \<longrightarrow> even (columnAt doc cursor)"
    and even_parent: "\<forall>p. hasNestedContent doc cursor = Some False
        \<and> getParentColumn doc cursor = Some p \<longrightarrow> even p"
  shows "\<exists>rs. map_of (columnRanges g) (activeIndentColumn g) = Some rs
           \<and> (\<forall>l. activeBlockStart g \<le> l \<and> l \<le> activeBlockEnd g \<longrightarrow> l \<in> startLine ` set rs)"
proof -
  obtain st ranges c s e
    where parts: "collectLoop doc 0 \<lparr>indentColumns = [], processedLines = []\<rparr> = Some st"
      "columnLoop doc w (sort (setAdd 0 (indentColumns st))) [] = Some ranges"
      "activeBlock doc cursor = Some (c, s, e)"
      "updateDecorations doc cursor w =
         Some \<lparr>columnRanges = ranges, activeIndentColumn = c,
               activeBlockStart = s, activeBlockEnd = e\<rparr>"
      "\<forall>n p. 0 \<le> n \<and> n < lineCount doc \<and> \<not> blankAt doc n \<and> getParentColumn doc n = Some p \<and> 0 \<le> p
          \<longrightarrow> p \<in> set (indentColumns st)"
    by (rule updateDecorations_parts [where doc = doc and cursor = cursor and w = w])
  from parts(4) run have g: "activeIndentColumn g = c" "activeBlockStart g = s" "activeBlockEnd g = e"
    by auto
  have covered: "\<exists>rs. map_of (columnRanges g) c = Some rs \<and> (\<forall>l. s \<le> l \<and> l \<le> e \<longrightarrow> l \<in> startLine ` set rs)"
    if head: "0 \<le> h" "h < lineCount doc" "\<not> blankAt doc h" "columnAt doc h = c"
      and block: "blockEndLoop doc c (h + 1) h = Some e2"
      and key: "c = 0 \<or> (\<exists>n. 0 \<le> n \<and> n < lineCount doc \<and> \<not> blankAt doc n
                \<and> getParentColumn doc n = Some c)"
      and some: "h < l0" "l0 \<le> e2"
      and span: "h < s" "e \<le> e2"
    for h e2 l0
  proof -
    from guide_for_block [OF run head block key some]
    obtain rs where rs: "map_of (columnRanges g) c = Some rs" by blast
    have "\<forall>l. s \<le> l \<and> l \<le> e \<longrightarrow> l \<in> startLine ` set rs"
    proof (intro allI impI)
      fix l assume "s \<le> l \<and> l \<le> e"
      with span have "h < l" "l \<le> e2" by simp_all
      from guide_for_block [OF run head block key this] rs
      show "l \<in> startLine ` set rs" by auto
    qed
    with rs show ?thesis by blast
  qed
  have "\<exists>rs. map_of (columnRanges g) c = Some rs \<and> (\<forall>l. s \<le> l \<and> l \<le> e \<longrightarrow> l \<in> startLine ` set rs)"
  proof (cases doc cursor rule: activeBlock_cases)
    case none
    with parts(3) g active show ?thesis by simp
  next
    case (parent e1)
    let ?i = cursor
    from hasNestedContent_True_inside [OF parent(1)]
    have inside: "0 \<le> ?i" "?i < lineCount doc" by simp_all
    from parent(1) inside
    have nb: "\<not> blankAt doc ?i"
      and child: "\<exists>k. ?i < k \<and> k < lineCount doc \<and> \<not> blankAt doc k
                    \<and> (\<forall>j. ?i < j \<and> j < k \<longrightarrow> blankAt doc j) \<and> columnAt doc ?i < columnAt doc k"
      by (simp_all add: hasNestedContent_char)
    from child obtain k where k: "?i < k" "k < lineCount doc" "\<not> blankAt doc k"
      "\<forall>j. ?i < j \<and> j < k \<longrightarrow> blankAt doc j" "columnAt doc ?i < columnAt doc k" by blast
    from even_own parent(1) have "columnAt doc ?i div 2 * 2 = columnAt doc ?i" by auto
    with parent parts(3) have c: "c = columnAt doc ?i" and s: "s = ?i + 1" and e: "e = e1"
      and e1: "activeEndLoop doc c (?i + 1) ?i = Some e1"
      by simp_all
    from blockEndLoop_reaches_child [OF inside(1) k(1,2) k(5) k(4)]
    obtain e2 where e2: "blockEndLoop doc c (?i + 1) ?i = Some e2" "k \<le> e2"
      unfolding c by blast
    have "getParentColumn doc k = Some c"
      unfolding c by (rule getParentColumn_first_child [OF inside(1) k(1,2) nb k(5) k(4)])
    with k inside have key: "c = 0 \<or> (\<exists>n. 0 \<le> n \<and> n < lineCount doc \<and> \<not> blankAt doc n
                \<and> getParentColumn doc n = Some c)"
      by (intro disjI2 exI [of _ k]) simp
    have "e1 \<le> e2"
      using activeEnd_le_blockEnd [of "?i + 1" ?i doc c e2 e1] inside e2(1) e1 by simp
    with covered [OF inside nb c [symmetric] e2(1) key k(1) e2(2)] s e
    show ?thesis by simp
  next
    case (child p s1 e1)
    let ?i = cursor
    from even_parent child(4,5) have "even p" by blast
    then have "p div 2 * 2 = p" by auto
    with child parts(3) have c: "c = p" and s: "s = s1" and e: "e = e1"
      and s1: "activeStartLoop doc c (?i - 1) ?i = Some s1"
      and e1: "activeEndLoop doc c (?i + 1) ?i = Some e1"
      by simp_all
    from getParentColumn_parent_line [OF child(1,2,5,6)]
    obtain h where h: "nearestBelow doc (columnAt doc ?i) (?i - 1) h" "p = columnAt doc h"
      by blast
    then have h': "0 \<le> h" "h \<le> ?i - 1" "\<not> blankAt doc h" "columnAt doc h < columnAt doc ?i"
      "\<forall>j. h < j \<and> j \<le> ?i - 1 \<longrightarrow> blankAt doc j \<or> columnAt doc ?i \<le> columnAt doc j"
      by (simp_all add: nearestBelow_def)
    from h' child(2) have hin: "h < lineCount doc" by simp
    have between: "\<forall>l. h + 1 \<le> l \<and> l \<le> ?i \<longrightarrow> blankAt doc l \<or> c < columnAt doc l"
    proof (intro allI impI)
      fix l assume l: "h + 1 \<le> l \<and> l \<le> ?i"
      show "blankAt doc l \<or> c < columnAt doc l"
      proof (cases "l = ?i")
        case True
        with h' h(2) c show ?thesis by simp
      next
        case False
        with l have "h < l \<and> l \<le> ?i - 1" by simp
        with h'(5) have "blankAt doc l \<or> columnAt doc ?i \<le> columnAt doc l" by blast
        with h'(4) h(2) c show ?thesis by auto
      qed
    qed
    from blockEndLoop_skip [of "h + 1" ?i doc c] h' child(2) between
    have skip: "blockEndLoop doc c (h + 1) h = blockEndLoop doc c (?i + 1) ?i" by simp
    from child(1) obtain e2 where e2: "blockEndLoop doc c (?i + 1) ?i = Some e2"
      using blockEndLoop_total [of "?i + 1" doc c ?i] by auto
    from blockEndLoop_block [of "?i + 1" doc c e2] e2 child(1) have "?i \<le> e2" by simp
    have "e1 \<le> e2"
      using activeEnd_le_blockEnd [of "?i + 1" ?i doc c e2 e1] child(1) e2 e1 by simp
    have "h < s1"
      using activeStartLoop_above [of h "?i - 1" doc c ?i s1] h' child(2) h(2) c s1 by simp
    have key: "c = 0 \<or> (\<exists>n. 0 \<le> n \<and> n < lineCount doc \<and> \<not> blankAt doc n
                \<and> getParentColumn doc n = Some c)"
      using child(1,2,3,5) c by (intro disjI2 exI [of _ ?i]) simp
    have hc: "columnAt doc h = c" using h(2) c by simp
    have hi: "h < ?i" using h' by simp
    from covered [OF h'(1) hin h'(3) hc _ key hi \<open>?i \<le> e2\<close>] skip e2
      \<open>h < s1\<close> \<open>e1 \<le> e2\<close> s e
    show ?thesis by simp
  qed
  with g show ?thesis by simp
qed

theorem active_span_covered_witness:
  "updateDecorations [''a:'', ''  - x'', ''  - y'', ''d:''] 1 1 =
     Some \<lparr>columnRanges = [(0, [Range 1 0 1 1, Range 2 0 2 1])], activeIndentColumn = 0,
           activeBlockStart = 1, activeBlockEnd = 2\<rparr>
   \<and> hasNestedContent [''a:'', ''  - x'', ''  - y'', ''d:''] 1 = Some False
   \<and> getParentColumn [''a:'', ''  - x'', ''  - y'', ''d:''] 1 = Some 0
   \<and> (\<exists>rs. map_of [(0 :: int, [Range 1 0 1 1, Range 2 0 2 1])] 0 = Some rs
          \<and> (\<forall>l. 1 \<le> l \<and> l \<le> 2 \<longrightarrow> l \<in> startLine ` set rs))"
proof -
  let ?doc = "[''a:'', ''  - x'', ''  - y'', ''d:'']"
  let ?g = "\<lparr>columnRanges = [(0, [Range 1 0 1 1, Range 2 0 2 1])], activeIndentColumn = 0,
           activeBlockStart = 1, activeBlockEnd = 2\<rparr>"
  have run: "updateDecorations ?doc 1 1 = Some ?g"
    by code_simp
  have nested: "hasNestedContent ?doc 1 = Some False"
    by code_simp
  have parent: "getParentColumn ?doc 1 = Some 0"
    by code_simp
  have active: "0 \<le> activeIndentColumn ?g" by simp
  have own: "hasNestedContent ?doc 1 = Some True \<longrightarrow> even (columnAt ?doc 1)"
    using nested by simp
  have par: "\<forall>p. hasNestedContent ?doc 1 = Some False \<and> getParentColumn ?doc 1 = Some p \<longrightarrow> even p"
    using parent by simp
  from active_span_covered [OF run active own par] run nested parent
  show ?thesis by simp
qed

text \<open>
  C2, as the claim states it, fails: in the document \<open>[" a:", "   b"]\<close> line 0 has a
  child, but no line has effective column 0, so no range is built for column 0 and
  the column gets no entry.
\<close>

theorem root_column_missing:
  "hasNestedContent ['' a:'', ''   b''] 0 = Some True
   \<and> updateDecorations ['' a:'', ''   b''] 1 1 =
     Some \<lparr>columnRanges = [(1, [Range 1 1 1 2])], activeIndentColumn = 0,
           activeBlockStart = 0, activeBlockEnd = 1\<rparr>
   \<and> 0 \<notin> fst ` set [(1 :: int, [Range 1 1 1 2])]"
  by code_simp

text \<open>
  C2, amended. Whenever the document has a line with effective column 0 that has a
  child (\<open>hasNestedContent\<close> is true for it), the computation returns normally and
  column 0 is a key of \<open>columnRanges\<close>.
\<close>

theorem root_column_key:
  assumes "hasNestedContent doc h = Some True" and "columnAt doc h = 0"
  shows "\<exists>g. updateDecorations doc cursor w = Some g \<and> 0 \<in> fst ` set (columnRanges g)"
proof -
  from hasNestedContent_True_inside [OF assms(1)]
  have inside: "0 \<le> h" "h < lineCount doc" by simp_all
  from assms(1) inside
  have nb: "\<not> blankAt doc h"
    and child: "\<exists>k. h < k \<and> k < lineCount doc \<and> \<not> blankAt doc k
                  \<and> (\<forall>j. h < j \<and> j < k \<longrightarrow> blankAt doc j) \<and> columnAt doc h < columnAt doc k"
    by (simp_all add: hasNestedContent_char)
  from child obtain k where k: "h < k" "k < lineCount doc"
    "\<forall>j. h < j \<and> j < k \<longrightarrow> blankAt doc j" "columnAt doc h < columnAt doc k" by blast
  from blockEndLoop_reaches_child [OF inside(1) k(1,2) _ k(3), of 0] k(4) assms(2)
  obtain e where e: "blockEndLoop doc 0 (h + 1) h = Some e" "k \<le> e" by auto
  obtain g where g: "updateDecorations doc cursor w = Some g"
    using updateDecorations_total [of doc cursor w] by blast
  from guide_for_block [OF g inside nb assms(2) e(1) _ k(1) e(2)]
  obtain rs where "map_of (columnRanges g) 0 = Some rs" by auto
  then have "0 \<in> fst ` set (columnRanges g)"
    by (meson domI domIff map_of_eq_None_iff)
  with g show ?thesis by blast
qed

theorem root_column_key_witness:
  "hasNestedContent [''a:'', ''  b: 1'', ''  c: 2''] 0 = Some True
   \<and> columnAt [''a:'', ''  b: 1'', ''  c: 2''] 0 = 0
   \<and> updateDecorations [''a:'', ''  b: 1'', ''  c: 2''] 0 1 =
       Some \<lparr>columnRanges = [(0, [Range 1 0 1 1, Range 2 0 2 1])], activeIndentColumn = 0,
             activeBlockStart = 1, activeBlockEnd = 2\<rparr>
   \<and> (\<exists>g. updateDecorations [''a:'', ''  b: 1'', ''  c: 2''] 0 1 = Some g
          \<and> 0 \<in> fst ` set (columnRanges g))"
proof -
  let ?doc = "[''a:'', ''  b: 1'', ''  c: 2'']"
  have nested: "hasNestedContent ?doc 0 = Some True"
    by code_simp
  have col: "columnAt ?doc 0 = 0"
    by code_simp
  have run: "updateDecorations ?doc 0 1 =
       Some \<lparr>columnRanges = [(0, [Range 1 0 1 1, Range 2 0 2 1])], activeIndentColumn = 0,
             activeBlockStart = 1, activeBlockEnd = 2\<rparr>"
    by code_simp
  from root_column_key [OF nested col, of 0 1] nested col run
  show ?thesis by blast
qed

text \<open>
  C3. \<open>getEffectiveIndentColumn\<close> is a total function that scans the leading
  characters of a line: the empty line has column 0, a leading space adds 1 and a
  leading tab adds 4 to the column of the rest, a \<open>-\<close> that is followed by a space
  stops the scan without being counted, and so does every other character. The line
  \<open>"  - a"\<close> has column 2.
\<close>

theorem effectiveColumn_scan:
  "getEffectiveIndentColumn [] = 0
   \<and> getEffectiveIndentColumn (CHR '' '' # s) = 1 + getEffectiveIndentColumn s
   \<and> getEffectiveIndentColumn (CHR 0x09 # s) = 4 + getEffectiveIndentColumn s
   \<and> getEffectiveIndentColumn (CHR ''-'' # CHR '' '' # s) = 0
   \<and> (c \<noteq> CHR '' '' \<and> c \<noteq> CHR 0x09 \<longrightarrow> getEffectiveIndentColumn (c # s) = 0)
   \<and> getEffectiveIndentColumn ''  - a'' = 2"
  by (simp add: getEffectiveIndentColumn_takeWhile)

theorem effectiveColumn_scan_witness:
  "CHR ''a'' \<noteq> CHR '' '' \<and> CHR ''a'' \<noteq> CHR 0x09
   \<and> getEffectiveIndentColumn (CHR ''a'' # ''bc'') = 0
   \<and> getEffectiveIndentColumn (CHR 0x09 # '' x'') = 4 + getEffectiveIndentColumn '' x''"
  using effectiveColumn_scan [of "''bc''" "CHR ''a''"] effectiveColumn_scan [of "'' x''" "CHR ''a''"]
  by simp

text \<open>
  C4. Putting more spaces in front of a line never lowers its effective column: with
  \<open>n \<le> m\<close>, the column of \<open>n\<close> spaces followed by \<open>s\<close> is at most the column of \<open>m\<close>
  spaces followed by \<open>s\<close>.
\<close>

theorem effectiveColumn_mono_spaces:
  "n \<le> m \<Longrightarrow>
     getEffectiveIndentColumn (replicate n (CHR '' '') @ s)
       \<le> getEffectiveIndentColumn (replicate m (CHR '' '') @ s)"
  by (simp add: getEffectiveIndentColumn_spaces)

theorem effectiveColumn_mono_spaces_witness:
  "(1::nat) \<le> 3 \<and>
     getEffectiveIndentColumn (replicate 1 (CHR '' '') @ ''- a'')
       \<le> getEffectiveIndentColumn (replicate 3 (CHR '' '') @ ''- a'')"
  using effectiveColumn_mono_spaces [of 1 3 "''- a''"] by simp

text \<open>
  C5. For a line number \<open>i \<ge> 0\<close>, \<open>hasNestedContent\<close> returns normally, and its
  result is true exactly when line \<open>i\<close> is not the last line (nor beyond it), is not
  blank, and the first non-blank line \<open>k\<close> after it (all lines between \<open>i\<close> and \<open>k\<close>
  being blank) has a strictly greater effective column. Lines after \<open>k\<close> play no part.
\<close>

theorem hasNestedContent_first_nonblank:
  assumes "0 \<le> i"
  shows "hasNestedContent doc i =
           Some (i < lineCount doc - 1 \<and> \<not> blankAt doc i
                 \<and> (\<exists>k. i < k \<and> k < lineCount doc \<and> \<not> blankAt doc k
                        \<and> (\<forall>j. i < j \<and> j < k \<longrightarrow> blankAt doc j)
                        \<and> columnAt doc i < columnAt doc k))"
  using assms by (rule hasNestedContent_char)

theorem hasNestedContent_first_nonblank_witness:
  "(0::int) \<le> 0
   \<and> hasNestedContent [''a:'', '''', ''  b'', ''c''] 0 = Some True
   \<and> (0 < lineCount [''a:'', '''', ''  b'', ''c''] - 1 \<and> \<not> blankAt [''a:'', '''', ''  b'', ''c''] 0
      \<and> (\<exists>k. 0 < k \<and> k < lineCount [''a:'', '''', ''  b'', ''c'']
             \<and> \<not> blankAt [''a:'', '''', ''  b'', ''c''] k
             \<and> (\<forall>j. 0 < j \<and> j < k \<longrightarrow> blankAt [''a:'', '''', ''  b'', ''c''] j)
             \<and> columnAt [''a:'', '''', ''  b'', ''c''] 0 < columnAt [''a:'', '''', ''  b'', ''c''] k))"
proof -
  have "hasNestedContent [''a:'', '''', ''  b'', ''c''] 0 = Some True"
    by code_simp
  with hasNestedContent_first_nonblank [of 0 "[''a:'', '''', ''  b'', ''c'']"]
  show ?thesis by simp
qed

text \<open>
  C6. For a line number \<open>i\<close> inside the document, \<open>getParentColumn\<close> returns
  normally. The result is \<open>-1\<close> when \<open>i\<close> is 0 or line \<open>i\<close> has effective column 0;
  otherwise it is the effective column of the nearest earlier line \<open>k\<close> that is not
  blank and has a strictly smaller effective column than line \<open>i\<close> (every line
  between \<open>k\<close> and \<open>i\<close> is blank or has a column that is not smaller), and \<open>-1\<close> when
  there is no such line.
\<close>

theorem getParentColumn_nearest:
  assumes "0 \<le> i" and "i < lineCount doc"
  shows "\<exists>r. getParentColumn doc i = Some r \<and>
     (if i = 0 \<or> columnAt doc i = 0 then r = - 1
      else if \<exists>k. 0 \<le> k \<and> k < i \<and> \<not> blankAt doc k \<and> columnAt doc k < columnAt doc i
      then \<exists>k. 0 \<le> k \<and> k < i \<and> \<not> blankAt doc k \<and> columnAt doc k < columnAt doc i
             \<and> (\<forall>j. k < j \<and> j < i \<longrightarrow> blankAt doc j \<or> columnAt doc i \<le> columnAt doc j)
             \<and> r = columnAt doc k
      else r = - 1)"
proof -
  have eq: "(k \<le> i - 1) = (k < i)" for k by auto
  from getParentColumn_cases [OF assms] obtain r where r: "getParentColumn doc i = Some r"
    and spec: "if i = 0 \<or> columnAt doc i = 0 then r = - 1
      else (\<exists>k. nearestBelow doc (columnAt doc i) (i - 1) k \<and> r = columnAt doc k)
        \<or> ((\<forall>k. 0 \<le> k \<and> k \<le> i - 1 \<longrightarrow> blankAt doc k \<or> columnAt doc i \<le> columnAt doc k)
           \<and> r = - 1)" by blast
  show ?thesis
  proof (cases "i = 0 \<or> columnAt doc i = 0")
    case True
    with r spec show ?thesis by simp
  next
    case False
    with spec consider
      (found) k where "nearestBelow doc (columnAt doc i) (i - 1) k" "r = columnAt doc k"
      | (none) "\<forall>k. 0 \<le> k \<and> k \<le> i - 1 \<longrightarrow> blankAt doc k \<or> columnAt doc i \<le> columnAt doc k" "r = - 1"
      by auto
    then show ?thesis
    proof cases
      case found
      then have k: "0 \<le> k \<and> k < i \<and> \<not> blankAt doc k \<and> columnAt doc k < columnAt doc i
             \<and> (\<forall>j. k < j \<and> j < i \<longrightarrow> blankAt doc j \<or> columnAt doc i \<le> columnAt doc j)
             \<and> r = columnAt doc k"
        unfolding nearestBelow_def eq by simp
      then have "\<exists>k. 0 \<le> k \<and> k < i \<and> \<not> blankAt doc k \<and> columnAt doc k < columnAt doc i" by blast
      moreover from k have "\<exists>k. 0 \<le> k \<and> k < i \<and> \<not> blankAt doc k \<and> columnAt doc k < columnAt doc i
             \<and> (\<forall>j. k < j \<and> j < i \<longrightarrow> blankAt doc j \<or> columnAt doc i \<le> columnAt doc j)
             \<and> r = columnAt doc k" ..
      ultimately show ?thesis unfolding if_not_P [OF False] using r by simp
    next
      case none
      then have nex: "\<not> (\<exists>k. 0 \<le> k \<and> k < i \<and> \<not> blankAt doc k \<and> columnAt doc k < columnAt doc i)"
        unfolding eq by auto
      show ?thesis unfolding if_not_P [OF False] if_not_P [OF nex] using r none(2) by simp
    qed
  qed
qed

theorem getParentColumn_nearest_witness:
  "(0::int) \<le> 3 \<and> 3 < lineCount [''a:'', ''  b:'', '''', ''    c'']
   \<and> getParentColumn [''a:'', ''  b:'', '''', ''    c''] 3 = Some 2
   \<and> (\<exists>r. getParentColumn [''a:'', ''  b:'', '''', ''    c''] 3 = Some r \<and>
     (if (3::int) = 0 \<or> columnAt [''a:'', ''  b:'', '''', ''    c''] 3 = 0 then r = - 1
      else if \<exists>k. 0 \<le> k \<and> k < 3 \<and> \<not> blankAt [''a:'', ''  b:'', '''', ''    c''] k
             \<and> columnAt [''a:'', ''  b:'', '''', ''    c''] k
                 < columnAt [''a:'', ''  b:'', '''', ''    c''] 3
      then \<exists>k. 0 \<le> k \<and> k < 3 \<and> \<not> blankAt [''a:'', ''  b:'', '''', ''    c''] k
             \<and> columnAt [''a:'', ''  b:'', '''', ''    c''] k
                 < columnAt [''a:'', ''  b:'', '''', ''    c''] 3
             \<and> (\<forall>j. k < j \<and> j < 3 \<longrightarrow> blankAt [''a:'', ''  b:'', '''', ''    c''] j
                    \<or> columnAt [''a:'', ''  b:'', '''', ''    c''] 3
                        \<le> columnAt [''a:'', ''  b:'', '''', ''    c''] j)
             \<and> r = columnAt [''a:'', ''  b:'', '''', ''    c''] k
      else r = - 1))"
proof -
  have len: "(3::int) < lineCount [''a:'', ''  b:'', '''', ''    c'']"
    by (simp add: lineCount_def)
  have val: "getParentColumn [''a:'', ''  b:'', '''', ''    c''] 3 = Some 2"
    by code_simp
  have pos: "(0::int) \<le> 3" by simp
  from pos len val getParentColumn_nearest [OF pos len]
  show ?thesis by blast
qed

text \<open>
  C7. For every column \<open>c\<close>, the blocks of two different parent lines at column \<open>c\<close>
  (non-blank lines with effective column \<open>c\<close>; the block of line \<open>i\<close> is the lines
  \<open>i + 1 .. blockEnd\<close> that get a range) have no line in common, and in the result of
  the computation the ranges in the entry of column \<open>c\<close> are on distinct lines.
\<close>

theorem blocks_disjoint_per_column:
  "(\<forall>i i' e e'. 0 \<le> i \<and> i < i' \<and> i' < lineCount doc
       \<and> \<not> blankAt doc i \<and> \<not> blankAt doc i' \<and> columnAt doc i = c \<and> columnAt doc i' = c
       \<and> blockEndLoop doc c (i + 1) i = Some e \<and> blockEndLoop doc c (i' + 1) i' = Some e'
       \<longrightarrow> {i + 1..e} \<inter> {i' + 1..e'} = {})
   \<and> (\<forall>g rs. updateDecorations doc cursor w = Some g \<and> map_of (columnRanges g) c = Some rs
       \<longrightarrow> distinct (map startLine rs))"
proof (intro conjI allI impI)
  fix i i' e e'
  assume a: "0 \<le> i \<and> i < i' \<and> i' < lineCount doc
       \<and> \<not> blankAt doc i \<and> \<not> blankAt doc i' \<and> columnAt doc i = c \<and> columnAt doc i' = c
       \<and> blockEndLoop doc c (i + 1) i = Some e \<and> blockEndLoop doc c (i' + 1) i' = Some e'"
  then have block: "\<forall>l. i + 1 \<le> l \<and> l \<le> e \<longrightarrow> blankAt doc l \<or> c < columnAt doc l"
    using blockEndLoop_block [of "i + 1" doc c e] by simp
  have "e < i'"
  proof (rule ccontr)
    assume "\<not> e < i'"
    with a have "i + 1 \<le> i' \<and> i' \<le> e" by simp
    with block have "blankAt doc i' \<or> c < columnAt doc i'" by blast
    with a show False by simp
  qed
  then show "{i + 1..e} \<inter> {i' + 1..e'} = {}" by auto
next
  fix g rs
  assume a: "updateDecorations doc cursor w = Some g \<and> map_of (columnRanges g) c = Some rs"
  obtain st ranges col s e
    where parts: "collectLoop doc 0 \<lparr>indentColumns = [], processedLines = []\<rparr> = Some st"
      "columnLoop doc w (sort (setAdd 0 (indentColumns st))) [] = Some ranges"
      "activeBlock doc cursor = Some (col, s, e)"
      "updateDecorations doc cursor w =
         Some \<lparr>columnRanges = ranges, activeIndentColumn = col,
               activeBlockStart = s, activeBlockEnd = e\<rparr>"
      "\<forall>n p. 0 \<le> n \<and> n < lineCount doc \<and> \<not> blankAt doc n \<and> getParentColumn doc n = Some p \<and> 0 \<le> p
          \<longrightarrow> p \<in> set (indentColumns st)"
    by (rule updateDecorations_parts [where doc = doc and cursor = cursor and w = w])
  from parts(4) a have "columnRanges g = ranges" by auto
  with parts(2) a columnLoop_entry [of doc w "sort (setAdd 0 (indentColumns st))" "[]" ranges c rs]
  have "headLoop doc c w 0 [] = Some rs" by simp
  from headLoop_distinct [OF _ _ _ this] show "distinct (map startLine rs)" by simp
qed

theorem blocks_disjoint_per_column_witness:
  "blockEndLoop [''a:'', ''  b'', '''', ''c:'', ''  d''] 0 1 0 = Some 2
   \<and> blockEndLoop [''a:'', ''  b'', '''', ''c:'', ''  d''] 0 4 3 = Some 4
   \<and> {0 + 1..2} \<inter> {3 + 1..4} = ({} :: int set)
   \<and> updateDecorations [''a:'', ''  b'', '''', ''c:'', ''  d''] 0 1 =
       Some \<lparr>columnRanges = [(0, [Range 1 0 1 1, Range 2 0 2 1, Range 4 0 4 1])],
             activeIndentColumn = 0, activeBlockStart = 1, activeBlockEnd = 1\<rparr>
   \<and> distinct (map startLine [Range 1 0 1 1, Range 2 0 2 1, Range 4 0 4 1])"
proof -
  let ?doc = "[''a:'', ''  b'', '''', ''c:'', ''  d'']"
  let ?rs = "[Range 1 0 1 1, Range 2 0 2 1, Range 4 0 4 1]"
  let ?g = "\<lparr>columnRanges = [(0, ?rs)],
             activeIndentColumn = 0, activeBlockStart = 1, activeBlockEnd = 1\<rparr>"
  have e: "blockEndLoop ?doc 0 (0 + 1) 0 = Some 2"
    by code_simp
  have e': "blockEndLoop ?doc 0 (3 + 1) 3 = Some 4"
    by code_simp
  have heads: "(0::int) \<le> 0 \<and> (0::int) < 3 \<and> 3 < lineCount ?doc
      \<and> \<not> blankAt ?doc 0 \<and> \<not> blankAt ?doc 3 \<and> columnAt ?doc 0 = 0 \<and> columnAt ?doc 3 = 0"
    by code_simp
  have run: "updateDecorations ?doc 0 1 = Some ?g"
    by code_simp
  have entry: "map_of (columnRanges ?g) 0 = Some ?rs" by simp
  note inst = blocks_disjoint_per_column [of ?doc 0 0 1]
  from inst heads e e' have "{0 + 1..2} \<inter> {3 + 1..4} = ({} :: int set)" by blast
  moreover from inst run entry have "distinct (map startLine ?rs)" by blast
  ultimately show ?thesis using e e' run by simp
qed

text \<open>
  C8. For the document \<open>["a:", "  b: 1", "", "  c: 2"]\<close> with the cursor on line 0 the
  computation returns, for every guide width, the active column 0 with the active
  span from line 1 to line 3: the blank line 2 lies inside the span, which does not
  end at it.
\<close>

theorem blank_line_inside_active_span:
  "\<exists>g. updateDecorations [''a:'', ''  b: 1'', '''', ''  c: 2''] 0 w = Some g
        \<and> activeIndentColumn g = 0 \<and> activeBlockStart g = 1 \<and> activeBlockEnd g = 3"
proof -
  let ?doc = "[''a:'', ''  b: 1'', '''', ''  c: 2'']"
  obtain st ranges col s e
    where parts: "collectLoop ?doc 0 \<lparr>indentColumns = [], processedLines = []\<rparr> = Some st"
      "columnLoop ?doc w (sort (setAdd 0 (indentColumns st))) [] = Some ranges"
      "activeBlock ?doc 0 = Some (col, s, e)"
      "updateDecorations ?doc 0 w =
         Some \<lparr>columnRanges = ranges, activeIndentColumn = col,
               activeBlockStart = s, activeBlockEnd = e\<rparr>"
      "\<forall>n p. 0 \<le> n \<and> n < lineCount ?doc \<and> \<not> blankAt ?doc n \<and> getParentColumn ?doc n = Some p \<and> 0 \<le> p
          \<longrightarrow> p \<in> set (indentColumns st)"
    by (rule updateDecorations_parts [where doc = ?doc and cursor = 0 and w = w])
  have "activeBlock ?doc 0 = Some (0, 1, 3)"
    by code_simp
  with parts(3) have "col = 0" "s = 1" "e = 3" by simp_all
  with parts(4) show ?thesis by simp
qed

text \<open>
  C9. For every document, every integer cursor line and every guide width the
  computation returns normally: no call of \<open>lineAt\<close> is out of range. A cursor line
  outside the document gives the active column \<open>-1\<close>, and the document without
  lines gives no guide ranges and the active column \<open>-1\<close>.
\<close>

theorem computation_total:
  "(\<exists>g. updateDecorations doc cursor w = Some g
        \<and> (cursor < 0 \<or> lineCount doc \<le> cursor \<longrightarrow> activeIndentColumn g = - 1))
   \<and> updateDecorations [] cursor w =
       Some \<lparr>columnRanges = [], activeIndentColumn = - 1,
             activeBlockStart = - 1, activeBlockEnd = - 1\<rparr>"
proof
  obtain st ranges col s e
    where parts: "collectLoop doc 0 \<lparr>indentColumns = [], processedLines = []\<rparr> = Some st"
      "columnLoop doc w (sort (setAdd 0 (indentColumns st))) [] = Some ranges"
      "activeBlock doc cursor = Some (col, s, e)"
      "updateDecorations doc cursor w =
         Some \<lparr>columnRanges = ranges, activeIndentColumn = col,
               activeBlockStart = s, activeBlockEnd = e\<rparr>"
      "\<forall>n p. 0 \<le> n \<and> n < lineCount doc \<and> \<not> blankAt doc n \<and> getParentColumn doc n = Some p \<and> 0 \<le> p
          \<longrightarrow> p \<in> set (indentColumns st)"
    by (rule updateDecorations_parts [where doc = doc and cursor = cursor and w = w])
  have "cursor < 0 \<or> lineCount doc \<le> cursor \<longrightarrow> col = - 1"
    using activeBlock_outside [of cursor doc] parts(3) by auto
  with parts(4) show "\<exists>g. updateDecorations doc cursor w = Some g
        \<and> (cursor < 0 \<or> lineCount doc \<le> cursor \<longrightarrow> activeIndentColumn g = - 1)"
    by simp
next
  have none: "\<not> 0 < lineCount []" by (simp add: lineCount_def)
  have "collectLoop [] 0 \<lparr>indentColumns = [], processedLines = []\<rparr>
      = Some \<lparr>indentColumns = [], processedLines = []\<rparr>"
    using none by (rule collectLoop_done)
  moreover have "headLoop [] 0 w 0 [] = Some []"
    using none by (rule headLoop_done)
  moreover have "activeBlock [] cursor = Some (- 1, - 1, - 1)"
    by (rule activeBlock_outside) (auto simp: lineCount_def)
  ultimately show "updateDecorations [] cursor w =
       Some \<lparr>columnRanges = [], activeIndentColumn = - 1,
             activeBlockStart = - 1, activeBlockEnd = - 1\<rparr>"
    by (simp add: updateDecorations_def setAdd_def)
qed

theorem computation_total_witness:
  "((5 :: int) < 0 \<or> lineCount [''a:'', ''  b''] \<le> 5)
   \<and> (\<exists>g. updateDecorations [''a:'', ''  b''] 5 1 = Some g \<and> activeIndentColumn g = - 1)
   \<and> updateDecorations [''a:'', ''  b''] 5 1 =
       Some \<lparr>columnRanges = [(0, [Range 1 0 1 1])], activeIndentColumn = - 1,
             activeBlockStart = - 1, activeBlockEnd = - 1\<rparr>"
proof -
  have out: "(5 :: int) < 0 \<or> lineCount [''a:'', ''  b''] \<le> 5"
    by (simp add: lineCount_def)
  have run: "updateDecorations [''a:'', ''  b''] 5 1 =
       Some \<lparr>columnRanges = [(0, [Range 1 0 1 1])], activeIndentColumn = - 1,
             activeBlockStart = - 1, activeBlockEnd = - 1\<rparr>"
    by code_simp
  from computation_total [of "[''a:'', ''  b'']" 5 1] out run
  show ?thesis by blast
qed

text \<open>
  C10. For every document and cursor line the computation returns an active column
  that is \<open>-1\<close> or an even number that is not negative. It can be smaller than the
  effective column it comes from: for \<open>[" a:", "   b"]\<close> with the cursor on line 0 the
  active column is 0 and the effective column of the cursor line is 1.
\<close>

theorem active_column_even:
  "(\<exists>g. updateDecorations doc cursor w = Some g
        \<and> (activeIndentColumn g = - 1 \<or> (0 \<le> activeIndentColumn g \<and> even (activeIndentColumn g))))
   \<and> (\<exists>g. updateDecorations ['' a:'', ''   b''] 0 1 = Some g
        \<and> hasNestedContent ['' a:'', ''   b''] 0 = Some True
        \<and> activeIndentColumn g = 0 \<and> getEffectiveIndentColumn '' a:'' = 1)"
proof
  obtain st ranges col s e
    where parts: "collectLoop doc 0 \<lparr>indentColumns = [], processedLines = []\<rparr> = Some st"
      "columnLoop doc w (sort (setAdd 0 (indentColumns st))) [] = Some ranges"
      "activeBlock doc cursor = Some (col, s, e)"
      "updateDecorations doc cursor w =
         Some \<lparr>columnRanges = ranges, activeIndentColumn = col,
               activeBlockStart = s, activeBlockEnd = e\<rparr>"
      "\<forall>n p. 0 \<le> n \<and> n < lineCount doc \<and> \<not> blankAt doc n \<and> getParentColumn doc n = Some p \<and> 0 \<le> p
          \<longrightarrow> p \<in> set (indentColumns st)"
    by (rule updateDecorations_parts [where doc = doc and cursor = cursor and w = w])
  from activeBlock_column_even [OF parts(3)] parts(4)
  show "\<exists>g. updateDecorations doc cursor w = Some g
        \<and> (activeIndentColumn g = - 1 \<or> (0 \<le> activeIndentColumn g \<and> even (activeIndentColumn g)))"
    by simp
next
  have "updateDecorations ['' a:'', ''   b''] 0 1 =
     Some \<lparr>columnRanges = [(1, [Range 1 1 1 2])], activeIndentColumn = 0,
           activeBlockStart = 1, activeBlockEnd = 1\<rparr>"
    by code_simp
  moreover have "hasNestedContent ['' a:'', ''   b''] 0 = Some True"
    by code_simp
  moreover have "getEffectiveIndentColumn '' a:'' = 1"
    by code_simp
  ultimately show "\<exists>g. updateDecorations ['' a:'', ''   b''] 0 1 = Some g
        \<and> hasNestedContent ['' a:'', ''   b''] 0 = Some True
        \<and> activeIndentColumn g = 0 \<and> getEffectiveIndentColumn '' a:'' = 1"
    by simp
qed

end
